theory Spec2Isabelle
  imports Main "HOL-Library.Word" "HOL-Library.Monad_Syntax"
begin

section \<open>The pin-state matrix of \<^verbatim>\<open>inc/gpio_std.c\<close>\<close>

text \<open>
  The file builds a three-level matrix (port, pin, function) out of nested \<^verbatim>\<open>malloc\<close>
  blocks and takes it down again with \<^verbatim>\<open>free\<close>.  The embedding keeps the heap explicit.
  The target is a 32-bit Cortex-M (ILP32): \<^verbatim>\<open>size_t\<close>, \<^verbatim>\<open>int\<close> and every pointer are one
  32-bit word, so a block is a run of words and \<^verbatim>\<open>sizeof\<close> is 4 for each of them.
\<close>

subsection \<open>Heap, allocator and undefined behaviour\<close>

type_synonym word32 = "32 word"
type_synonym addr = "32 word"

text \<open>
  \<open>ram s a i\<close> is the word at offset \<open>i\<close> (counted in words) of the block that starts at
  \<open>a\<close>; it has a value whether or not the block is allocated, which is what a block
  fresh from \<^verbatim>\<open>malloc\<close> shows: \<^verbatim>\<open>malloc\<close> does not clear memory.
  \<open>live s\<close> maps the start of every allocated block to its size in words.
  \<open>brk s\<close> is the address the allocator hands out next (addresses are not reused;
  \<open>0\<close> means the address space is used up).
  \<open>plan s\<close> decides the coming \<^verbatim>\<open>malloc\<close> calls: \<open>True\<close> grants, \<open>False\<close> refuses, and
  an empty plan refuses everything.
\<close>

record heap =
  ram :: "addr \<Rightarrow> nat \<Rightarrow> word32"
  live :: "addr \<rightharpoonup> nat"
  brk :: addr
  plan :: "bool list"

abbreviation NULL :: addr where "NULL \<equiv> 0"

definition SUCCESS :: int where "SUCCESS = 0"
definition EINVAL :: int where "EINVAL = 22"

definition GPIO_A :: nat where "GPIO_A = 0"
definition GPIO_B :: nat where "GPIO_B = 1"
definition GPIO_C :: nat where "GPIO_C = 2"
definition GPIO_D :: nat where "GPIO_D = 3"
definition MAX_PORTS :: nat where "MAX_PORTS = 4"

definition GPIO_OUT :: nat where "GPIO_OUT = 0"
definition GPIO_IN :: nat where "GPIO_IN = 1"
definition GPIO_ALT :: nat where "GPIO_ALT = 2"
definition MAX_FUNC :: nat where "MAX_FUNC = 3"

definition GPIO_OFF :: word32 where "GPIO_OFF = 0"
definition GPIO_ON :: word32 where "GPIO_ON = 1"

text \<open>\<^verbatim>\<open>malloc(bytes)\<close>: the result is \<open>NULL\<close> or the start of a fresh block of
  \<open>bytes div 4\<close> words whose content is whatever \<open>ram\<close> holds there.\<close>

definition malloc :: "heap \<Rightarrow> word32 \<Rightarrow> addr \<times> heap" where
  "malloc s bytes =
     (case plan s of
        [] \<Rightarrow> (NULL, s)
      | granted # rest \<Rightarrow>
          if granted \<and> brk s \<noteq> NULL
          then (brk s, s\<lparr>live := (live s)(brk s \<mapsto> unat bytes div 4),
                          brk := brk s + 1, plan := rest\<rparr>)
          else (NULL, s\<lparr>plan := rest\<rparr>))"

text \<open>\<^verbatim>\<open>free(p)\<close>: nothing for \<open>NULL\<close>; undefined behaviour (\<open>None\<close>) for a pointer that is
  not the start of an allocated block, which covers the double free.\<close>

definition free :: "heap \<Rightarrow> addr \<Rightarrow> heap option" where
  "free s p =
     (if p = NULL then Some s
      else if live s p \<noteq> None then Some (s\<lparr>live := (live s)(p := None)\<rparr>)
      else None)"

text \<open>Reading and writing word \<open>i\<close> of block \<open>a\<close>; outside an allocated block both are
  undefined behaviour.\<close>

definition load :: "heap \<Rightarrow> addr \<Rightarrow> nat \<Rightarrow> word32 option" where
  "load s a i =
     (case live s a of
        None \<Rightarrow> None
      | Some n \<Rightarrow> if i < n then Some (ram s a i) else None)"

definition store :: "heap \<Rightarrow> addr \<Rightarrow> nat \<Rightarrow> word32 \<Rightarrow> heap option" where
  "store s a i v =
     (case live s a of
        None \<Rightarrow> None
      | Some n \<Rightarrow> if i < n then Some (s\<lparr>ram := (ram s)(a := (ram s a)(i := v))\<rparr>) else None)"

subsection \<open>\<^verbatim>\<open>pins_t\<close> and the access paths\<close>

text \<open>\<^verbatim>\<open>pins_t\<close> is two words: \<^verbatim>\<open>num_of_pins\<close> at offset 0 and \<^verbatim>\<open>pins\<close> at offset 1.\<close>

definition num_of_pins :: "heap \<Rightarrow> addr \<Rightarrow> word32 option" where
  "num_of_pins s instance = load s instance 0"

definition pins :: "heap \<Rightarrow> addr \<Rightarrow> addr option" where
  "pins s instance = load s instance 1"

text \<open>\<^verbatim>\<open>instance->pins[port]\<close> and \<^verbatim>\<open>instance->pins[port][pin]\<close> as values.\<close>

definition pins_port :: "heap \<Rightarrow> addr \<Rightarrow> nat \<Rightarrow> addr option" where
  "pins_port s instance port = do { p \<leftarrow> pins s instance; load s p port }"

definition pins_port_pin :: "heap \<Rightarrow> addr \<Rightarrow> nat \<Rightarrow> nat \<Rightarrow> addr option" where
  "pins_port_pin s instance port pin = do { r \<leftarrow> pins_port s instance port; load s r pin }"

subsection \<open>\<^verbatim>\<open>PINS_destroyInstance\<close>\<close>

text \<open>The loop over the pins of one port (lines 131 to 138).  The bound
  \<^verbatim>\<open>instance->num_of_pins\<close> is read again at every test, as in the source.  The counter
  is a \<^verbatim>\<open>size_t\<close> that stays below the bound it was just compared with, so it cannot wrap.\<close>

function destroy_pins :: "heap \<Rightarrow> addr \<Rightarrow> nat \<Rightarrow> nat \<Rightarrow> heap option" where
  "destroy_pins s instance port pin = do {
     n \<leftarrow> num_of_pins s instance;
     if pin < unat n then do {
       p \<leftarrow> pins_port_pin s instance port pin;
       s' \<leftarrow> (if p \<noteq> NULL then do {
                 q \<leftarrow> pins_port_pin s instance port pin;
                 s1 \<leftarrow> free s q;
                 r \<leftarrow> pins_port s1 instance port;
                 store s1 r pin NULL }
               else Some s);
       destroy_pins s' instance port (pin + 1) }
     else Some s }"
  by pat_completeness auto
termination
proof (relation "measure (\<lambda>(s, instance, port, pin). 2 ^ 32 - pin)")
  show "wf (measure (\<lambda>(s, instance, port, pin). 2 ^ 32 - pin))" by simp
next
  fix s :: heap and inst :: addr and port pin :: nat and n :: word32
    and s' :: heap
  assume "pin < unat n"
  moreover have "unat n < 2 ^ 32" using unsigned_less [of n] by simp
  ultimately show "((s', inst, port, pin + 1), (s, inst, port, pin))
      \<in> measure (\<lambda>(s, instance, port, pin). 2 ^ 32 - pin)"
    by simp
qed

declare destroy_pins.simps [simp del]

text \<open>The loop over the ports (lines 127 to 143).\<close>

function destroy_ports :: "heap \<Rightarrow> addr \<Rightarrow> nat \<Rightarrow> heap option" where
  "destroy_ports s instance port =
     (if port < MAX_PORTS then do {
        r \<leftarrow> pins_port s instance port;
        s' \<leftarrow> (if r \<noteq> NULL then do {
                  s1 \<leftarrow> destroy_pins s instance port 0;
                  q \<leftarrow> pins_port s1 instance port;
                  s2 \<leftarrow> free s1 q;
                  p \<leftarrow> pins s2 instance;
                  store s2 p port NULL }
                else Some s);
        destroy_ports s' instance (port + 1) }
      else Some s)"
  by pat_completeness auto
termination
  by (relation "measure (\<lambda>(s, instance, port). MAX_PORTS - port)") auto

declare destroy_ports.simps [simp del]

text \<open>The body up to the label \<^verbatim>\<open>function_output\<close>: the value of the local \<^verbatim>\<open>ret\<close> there,
  and the heap.  The assignment \<^verbatim>\<open>instance = NULL\<close> of line 150 changes the parameter
  only, a local copy of the caller's pointer, so it leaves no trace.\<close>

definition destroy_body :: "heap \<Rightarrow> addr \<Rightarrow> (int \<times> heap) option" where
  "destroy_body s instance =
     (let ret = SUCCESS in
      if instance = NULL then Some (- EINVAL, s)
      else do {
        p \<leftarrow> pins s instance;
        s1 \<leftarrow> (if p \<noteq> NULL then do {
                  s' \<leftarrow> destroy_ports s instance 0;
                  q \<leftarrow> pins s' instance;
                  s'' \<leftarrow> free s' q;
                  store s'' instance 1 NULL }
                else Some s);
        s2 \<leftarrow> free s1 instance;
        Some (ret, s2) })"

text \<open>Line 153 is \<^verbatim>\<open>return SUCCESS;\<close>, not \<^verbatim>\<open>return ret;\<close>.\<close>

definition PINS_destroyInstance :: "heap \<Rightarrow> addr \<Rightarrow> (int \<times> heap) option" where
  "PINS_destroyInstance s instance = do {
     (ret, s') \<leftarrow> destroy_body s instance;
     Some (SUCCESS, s') }"

subsection \<open>\<^verbatim>\<open>PINS_createInstance\<close>\<close>

text \<open>Each loop returns the value the local \<^verbatim>\<open>pins_matrix\<close> has when the loop is left:
  the instance when it ran to its end, \<open>NULL\<close> after a jump to \<^verbatim>\<open>function_output\<close>.\<close>

function create_funcs :: "heap \<Rightarrow> addr \<Rightarrow> nat \<Rightarrow> nat \<Rightarrow> (addr \<times> heap) option" where
  "create_funcs s pins_matrix pin func = do {
     n \<leftarrow> num_of_pins s pins_matrix;
     if func < unat n then
       (case malloc s (of_nat MAX_FUNC * 4) of (p, s1) \<Rightarrow> do {
          r \<leftarrow> pins_port s1 pins_matrix pin;
          s2 \<leftarrow> store s1 r func p;
          q \<leftarrow> pins_port_pin s2 pins_matrix pin func;
          if q = NULL then do {
            (ret, s3) \<leftarrow> PINS_destroyInstance s2 pins_matrix;
            Some (NULL, s3) }
          else create_funcs s2 pins_matrix pin (func + 1) })
     else Some (pins_matrix, s) }"
  by pat_completeness auto
termination
proof (relation "measure (\<lambda>(s, pins_matrix, pin, func). 2 ^ 32 - func)")
  show "wf (measure (\<lambda>(s, pins_matrix, pin, func). 2 ^ 32 - func))" by simp
next
  fix s :: heap and pins_matrix :: addr and pin func :: nat and n :: word32
    and s2 :: heap
  assume "func < unat n"
  moreover have "unat n < 2 ^ 32" using unsigned_less [of n] by simp
  ultimately show "((s2, pins_matrix, pin, func + 1), (s, pins_matrix, pin, func))
      \<in> measure (\<lambda>(s, pins_matrix, pin, func). 2 ^ 32 - func)"
    by simp
qed

declare create_funcs.simps [simp del]

function create_ports :: "heap \<Rightarrow> addr \<Rightarrow> nat \<Rightarrow> (addr \<times> heap) option" where
  "create_ports s pins_matrix pin =
     (if pin < MAX_PORTS then do {
        n \<leftarrow> num_of_pins s pins_matrix;
        (case malloc s (n * 4) of (p, s1) \<Rightarrow> do {
           ps \<leftarrow> pins s1 pins_matrix;
           s2 \<leftarrow> store s1 ps pin p;
           q \<leftarrow> pins_port s2 pins_matrix pin;
           if q = NULL then do {
             (ret, s3) \<leftarrow> PINS_destroyInstance s2 pins_matrix;
             Some (NULL, s3) }
           else do {
             (pm, s3) \<leftarrow> create_funcs s2 pins_matrix pin 0;
             if pm = NULL then Some (NULL, s3)
             else create_ports s3 pins_matrix (pin + 1) } }) }
      else Some (pins_matrix, s))"
  by pat_completeness auto
termination
  by (relation "measure (\<lambda>(s, pins_matrix, pin). MAX_PORTS - pin)") auto

declare create_ports.simps [simp del]

definition PINS_createInstance :: "heap \<Rightarrow> word32 \<Rightarrow> (addr \<times> heap) option" where
  "PINS_createInstance s n =
     (case malloc s 8 of (pins_matrix, s1) \<Rightarrow>
        if pins_matrix = NULL then Some (NULL, s1)
        else do {
          s2 \<leftarrow> store s1 pins_matrix 0 n;
          (case malloc s2 (of_nat MAX_PORTS * 4) of (p, s3) \<Rightarrow> do {
             s4 \<leftarrow> store s3 pins_matrix 1 p;
             ps \<leftarrow> pins s4 pins_matrix;
             if ps = NULL then do {
               s5 \<leftarrow> free s4 pins_matrix;
               Some (NULL, s5) }
             else create_ports s4 pins_matrix 0 }) })"

subsection \<open>The cell accesses of \<^verbatim>\<open>main\<close>\<close>

text \<open>\<^verbatim>\<open>my_pins->pins[port][pin][func]\<close> as an rvalue and as the target of an assignment
  (lines 48 to 50): three pointer reads, then the access to the cell.\<close>

definition read_cell :: "heap \<Rightarrow> addr \<Rightarrow> nat \<Rightarrow> nat \<Rightarrow> nat \<Rightarrow> word32 option" where
  "read_cell s my_pins port pin func = do {
     c \<leftarrow> pins_port_pin s my_pins port pin;
     load s c func }"

definition write_cell :: "heap \<Rightarrow> addr \<Rightarrow> nat \<Rightarrow> nat \<Rightarrow> nat \<Rightarrow> word32 \<Rightarrow> heap option" where
  "write_cell s my_pins port pin func v = do {
     c \<leftarrow> pins_port_pin s my_pins port pin;
     store s c func v }"

text \<open>The three assignments of \<^verbatim>\<open>main\<close>.\<close>

definition main_writes :: "heap \<Rightarrow> addr \<Rightarrow> heap option" where
  "main_writes s my_pins = do {
     s1 \<leftarrow> write_cell s my_pins GPIO_A 0 GPIO_OUT GPIO_ON;
     s2 \<leftarrow> write_cell s1 my_pins GPIO_B 2 GPIO_ALT GPIO_ON;
     write_cell s2 my_pins GPIO_C 5 GPIO_IN GPIO_ON }"

subsection \<open>Call sequences used as test scenarios\<close>

text \<open>A heap right after reset: nothing allocated, every word of RAM holding \<open>junk\<close>, and an
  allocator that answers the coming requests as \<open>pl\<close> says.\<close>

definition boot :: "word32 \<Rightarrow> bool list \<Rightarrow> heap" where
  "boot junk pl = \<lparr>ram = (\<lambda>a i. junk), live = Map.empty, brk = 1, plan = pl\<rparr>"

definition create_then_read :: "heap \<Rightarrow> word32 \<Rightarrow> nat \<Rightarrow> nat \<Rightarrow> nat \<Rightarrow> word32 option" where
  "create_then_read s n port pin func = do {
     (my_pins, s1) \<leftarrow> PINS_createInstance s n;
     if my_pins \<noteq> NULL then read_cell s1 my_pins port pin func else None }"

definition main_then_read :: "heap \<Rightarrow> word32 \<Rightarrow> nat \<Rightarrow> nat \<Rightarrow> nat \<Rightarrow> word32 option" where
  "main_then_read s n port pin func = do {
     (my_pins, s1) \<leftarrow> PINS_createInstance s n;
     if my_pins \<noteq> NULL then do {
       s2 \<leftarrow> main_writes s1 my_pins;
       read_cell s2 my_pins port pin func }
     else None }"

definition create_destroy :: "heap \<Rightarrow> word32 \<Rightarrow> (addr \<times> int \<times> heap) option" where
  "create_destroy s n = do {
     (my_pins, s1) \<leftarrow> PINS_createInstance s n;
     if my_pins \<noteq> NULL then do {
       (destroy_ret, s2) \<leftarrow> PINS_destroyInstance s1 my_pins;
       Some (my_pins, destroy_ret, s2) }
     else None }"

definition create_destroy_twice :: "heap \<Rightarrow> word32 \<Rightarrow> (int \<times> heap) option" where
  "create_destroy_twice s n = do {
     (my_pins, destroy_ret, s2) \<leftarrow> create_destroy s n;
     PINS_destroyInstance s2 my_pins }"

text \<open>The heap operations of \<^verbatim>\<open>PINS_createInstance\<close> from its entry to the first call of
  \<^verbatim>\<open>PINS_destroyInstance\<close> at line 91 (lines 69 to 89 with \<^verbatim>\<open>pin = 0\<close>): the header, its
  \<^verbatim>\<open>num_of_pins\<close>, the port level, and the first pin level stored into slot 0.\<close>

definition before_rollback :: "heap \<Rightarrow> word32 \<Rightarrow> heap option" where
  "before_rollback s n =
     (case malloc s 8 of (pins_matrix, s1) \<Rightarrow> do {
        s2 \<leftarrow> store s1 pins_matrix 0 n;
        (case malloc s2 (of_nat MAX_PORTS * 4) of (p, s3) \<Rightarrow> do {
           s4 \<leftarrow> store s3 pins_matrix 1 p;
           (case malloc s4 (n * 4) of (q, s5) \<Rightarrow> store s5 p 0 q) }) })"

section \<open>Predicates on heaps\<close>

text \<open>The allocator's bookkeeping is consistent: \<open>NULL\<close> is not a block, and every allocated
  block lies below the address that is handed out next, so a granted block is fresh.\<close>

definition heap_ok :: "heap \<Rightarrow> bool" where
  "heap_ok s \<longleftrightarrow>
     live s NULL = None \<and> (brk s \<noteq> NULL \<longrightarrow> (\<forall>a. live s a \<noteq> None \<longrightarrow> a < brk s))"

text \<open>What the caller of \<^verbatim>\<open>PINS_createInstance\<close> can rely on: the header, the port level,
  the four pin levels of \<open>n\<close> pointers, and \<open>n\<close> function levels of three cells under each
  of them are allocated blocks reached through non-null pointers.\<close>

definition fully_allocated :: "heap \<Rightarrow> addr \<Rightarrow> word32 \<Rightarrow> bool" where
  "fully_allocated s h n \<longleftrightarrow>
     h \<noteq> NULL \<and> live s h = Some 2 \<and> ram s h 0 = n \<and>
     ram s h 1 \<noteq> NULL \<and> live s (ram s h 1) = Some MAX_PORTS \<and>
     (\<forall>port<MAX_PORTS.
        ram s (ram s h 1) port \<noteq> NULL \<and> live s (ram s (ram s h 1) port) = Some (unat n) \<and>
        (\<forall>pin<unat n.
           ram s (ram s (ram s h 1) port) pin \<noteq> NULL \<and>
           live s (ram s (ram s (ram s h 1) port) pin) = Some MAX_FUNC))"

text \<open>Separation of a matrix with header \<open>h\<close>, port level \<open>P\<close>, pin levels \<open>R p\<close> and
  function levels \<open>F p j\<close>: no pointer is null and no two of the blocks coincide.\<close>

definition shape_sep ::
  "addr \<Rightarrow> addr \<Rightarrow> (nat \<Rightarrow> addr) \<Rightarrow> (nat \<Rightarrow> nat \<Rightarrow> addr) \<Rightarrow> nat \<Rightarrow> bool" where
  "shape_sep h P R F N \<longleftrightarrow>
     h \<noteq> NULL \<and> P \<noteq> NULL \<and> h \<noteq> P \<and>
     (\<forall>p<4. R p \<noteq> NULL \<and> R p \<noteq> h \<and> R p \<noteq> P \<and>
        (\<forall>j<N. F p j \<noteq> NULL \<and> F p j \<noteq> h \<and> F p j \<noteq> P)) \<and>
     (\<forall>p<4. \<forall>p'<4.
        (p \<noteq> p' \<longrightarrow> R p \<noteq> R p') \<and>
        (\<forall>j<N. F p j \<noteq> R p' \<and> (\<forall>j'<N. (p \<noteq> p' \<or> j \<noteq> j') \<longrightarrow> F p j \<noteq> F p' j')))"

text \<open>A live matrix: fully allocated, with all its blocks separate.  The pointers are
  read from memory: \<open>ram s h 1\<close> is the port level, \<open>ram s (ram s h 1) p\<close> the pin level of
  port \<open>p\<close>, and so on.\<close>

definition live_matrix :: "heap \<Rightarrow> addr \<Rightarrow> bool" where
  "live_matrix s h \<longleftrightarrow>
     live s NULL = None \<and> live s h = Some 2 \<and> live s (ram s h 1) = Some 4 \<and>
     (\<forall>p<4. live s (ram s (ram s h 1) p) = Some (unat (ram s h 0)) \<and>
        (\<forall>j<unat (ram s h 0). live s (ram s (ram s (ram s h 1) p) j) = Some 3)) \<and>
     shape_sep h (ram s h 1) (ram s (ram s h 1)) (\<lambda>p. ram s (ram s (ram s h 1) p))
       (unat (ram s h 0))"

text \<open>The blocks of the matrix at \<open>h\<close>.\<close>

definition blocks :: "heap \<Rightarrow> addr \<Rightarrow> addr set" where
  "blocks s h =
     {h, ram s h 1} \<union>
     {a. \<exists>p<4. a = ram s (ram s h 1) p \<or>
           (\<exists>j<unat (ram s h 0). a = ram s (ram s (ram s h 1) p) j)}"

text \<open>What \<^verbatim>\<open>PINS_destroyInstance\<close> tolerates: an instance of which only a part is
  built.  A null pointer marks a level that is not there; where a pointer is not null,
  it leads to an allocated block, and the blocks reached are separate.  \<open>shape_psep\<close> is the
  separation, \<open>rows_phold\<close> says that the pin levels from \<open>port\<close> on and the function
  levels below them are in memory as \<open>R\<close> and \<open>F\<close> say.\<close>

definition shape_psep ::
  "addr \<Rightarrow> addr \<Rightarrow> (nat \<Rightarrow> addr) \<Rightarrow> (nat \<Rightarrow> nat \<Rightarrow> addr) \<Rightarrow> nat \<Rightarrow> bool" where
  "shape_psep h P R F N \<longleftrightarrow>
     h \<noteq> NULL \<and> P \<noteq> NULL \<and> h \<noteq> P \<and>
     (\<forall>p<4. R p \<noteq> NULL \<longrightarrow>
        R p \<noteq> h \<and> R p \<noteq> P \<and> (\<forall>p'<4. p' \<noteq> p \<longrightarrow> R p' \<noteq> R p) \<and>
        (\<forall>j<N. F p j \<noteq> NULL \<longrightarrow>
           F p j \<noteq> h \<and> F p j \<noteq> P \<and> (\<forall>p'<4. R p' \<noteq> F p j) \<and>
           (\<forall>p'<4. \<forall>j'<N. R p' \<noteq> NULL \<and> (p' \<noteq> p \<or> j' \<noteq> j) \<longrightarrow> F p' j' \<noteq> F p j)))"

definition rows_phold ::
  "heap \<Rightarrow> addr \<Rightarrow> (nat \<Rightarrow> addr) \<Rightarrow> (nat \<Rightarrow> nat \<Rightarrow> addr) \<Rightarrow> nat \<Rightarrow> nat \<Rightarrow> bool" where
  "rows_phold s P R F N port \<longleftrightarrow>
     (\<forall>p<4. port \<le> p \<longrightarrow>
        ram s P p = R p \<and>
        (R p \<noteq> NULL \<longrightarrow> live s (R p) = Some N \<and>
           (\<forall>j<N. ram s (R p) j = F p j \<and> (F p j \<noteq> NULL \<longrightarrow> live s (F p j) \<noteq> None))))"

definition partial_matrix :: "heap \<Rightarrow> addr \<Rightarrow> bool" where
  "partial_matrix s h \<longleftrightarrow>
     live s NULL = None \<and> h \<noteq> NULL \<and> live s h = Some 2 \<and>
     (ram s h 1 = NULL \<or>
      live s (ram s h 1) = Some 4 \<and>
      shape_psep h (ram s h 1) (ram s (ram s h 1)) (\<lambda>p. ram s (ram s (ram s h 1) p))
        (unat (ram s h 0)) \<and>
      rows_phold s (ram s h 1) (ram s (ram s h 1)) (\<lambda>p. ram s (ram s (ram s h 1) p))
        (unat (ram s h 0)) 0)"

text \<open>The blocks of the partial instance at \<open>h\<close>.\<close>

definition pblocks :: "heap \<Rightarrow> addr \<Rightarrow> addr set" where
  "pblocks s h =
     {h} \<union>
     {a. a \<noteq> NULL \<and> ram s h 1 \<noteq> NULL \<and>
         (a = ram s h 1 \<or>
          (\<exists>p<4. ram s (ram s h 1) p \<noteq> NULL \<and>
             (a = ram s (ram s h 1) p \<or>
              (\<exists>j<unat (ram s h 0). a = ram s (ram s (ram s h 1) p) j))))}"

text \<open>The relation between the heap \<open>s\<close> in which the loop over the ports is entered at
  \<open>pin\<close> and the heap \<open>s'\<close> in which it ends with success, in four parts: the blocks of
  \<open>s\<close> keep their size and, but for the slots of the port level from \<open>pin\<close> on, their
  content; every block of \<open>s'\<close> is one of \<open>s\<close> or one of the new pin and function
  levels; the new levels are fresh, of the right size, and the function levels hold what
  memory held before; the new blocks are separate.\<close>

definition old_kept :: "heap \<Rightarrow> heap \<Rightarrow> addr \<Rightarrow> nat \<Rightarrow> bool" where
  "old_kept s s' P pin \<longleftrightarrow>
     (\<forall>a i. live s a \<noteq> None \<and> \<not> (a = P \<and> pin \<le> i) \<longrightarrow> ram s' a i = ram s a i) \<and>
     (\<forall>a. live s a \<noteq> None \<longrightarrow> live s' a = live s a)"

definition new_blocks :: "heap \<Rightarrow> heap \<Rightarrow> addr \<Rightarrow> nat \<Rightarrow> nat \<Rightarrow> bool" where
  "new_blocks s s' P N pin \<longleftrightarrow>
     (\<forall>a. live s' a \<noteq> None \<longrightarrow>
          live s a \<noteq> None \<or>
          (\<exists>p. pin \<le> p \<and> p < 4 \<and> (a = ram s' P p \<or> (\<exists>j<N. a = ram s' (ram s' P p) j))))"

definition rows_built :: "heap \<Rightarrow> heap \<Rightarrow> addr \<Rightarrow> nat \<Rightarrow> nat \<Rightarrow> bool" where
  "rows_built s s' P N pin \<longleftrightarrow>
     (\<forall>p. pin \<le> p \<and> p < 4 \<longrightarrow>
          ram s' P p \<noteq> NULL \<and> live s (ram s' P p) = None \<and> live s' (ram s' P p) = Some N \<and>
          (\<forall>j<N. ram s' (ram s' P p) j \<noteq> NULL \<and> live s (ram s' (ram s' P p) j) = None \<and>
                  live s' (ram s' (ram s' P p) j) = Some 3 \<and>
                  ram s' (ram s' (ram s' P p) j) = ram s (ram s' (ram s' P p) j)))"

definition rows_sep :: "heap \<Rightarrow> addr \<Rightarrow> nat \<Rightarrow> nat \<Rightarrow> bool" where
  "rows_sep s' P N pin \<longleftrightarrow>
     (\<forall>p p'. pin \<le> p \<and> p < 4 \<and> pin \<le> p' \<and> p' < 4 \<longrightarrow>
          (p \<noteq> p' \<longrightarrow> ram s' P p \<noteq> ram s' P p') \<and>
          (\<forall>j<N. ram s' (ram s' P p) j \<noteq> ram s' P p' \<and>
                  (\<forall>j'<N. (p \<noteq> p' \<or> j \<noteq> j') \<longrightarrow>
                      ram s' (ram s' P p) j \<noteq> ram s' (ram s' P p') j')))"

definition built :: "heap \<Rightarrow> heap \<Rightarrow> addr \<Rightarrow> nat \<Rightarrow> bool" where
  "built s s' h pin \<longleftrightarrow>
     heap_ok s' \<and> live s' h = Some 2 \<and> live s' (ram s h 1) = Some 4 \<and> ram s' h = ram s h \<and>
     old_kept s s' (ram s h 1) pin \<and>
     new_blocks s s' (ram s h 1) (unat (ram s h 0)) pin \<and>
     rows_built s s' (ram s h 1) (unat (ram s h 0)) pin \<and>
     rows_sep s' (ram s h 1) (unat (ram s h 0)) pin"

text \<open>Memory outside the allocated blocks reads zero: the condition under which a block
  fresh from \<^verbatim>\<open>malloc\<close> holds only \<open>NULL\<close> pointers.\<close>

definition zeroed :: "heap \<Rightarrow> bool" where
  "zeroed s \<longleftrightarrow> (\<forall>a i. live s a = None \<longrightarrow> ram s a i = NULL)"

text \<open>The invariant of the two loops of \<^verbatim>\<open>PINS_createInstance\<close> under that condition: the
  instance at \<open>h\<close> is a partial matrix with a port level, and the blocks outside it are
  those of \<open>L0\<close>, the blocks at the call.\<close>

definition rb_inv :: "heap \<Rightarrow> (addr \<rightharpoonup> nat) \<Rightarrow> addr \<Rightarrow> bool" where
  "rb_inv s L0 h \<longleftrightarrow>
     heap_ok s \<and> zeroed s \<and> ram s h 1 \<noteq> NULL \<and> partial_matrix s h \<and>
     (\<forall>a. (if a \<in> pblocks s h then None else live s a) = L0 a)"

section \<open>Basic facts about the heap operations\<close>

lemma load_live: "live s a = Some n \<Longrightarrow> i < n \<Longrightarrow> load s a i = Some (ram s a i)"
  by (simp add: load_def)

lemma store_live:
  "live s a = Some n \<Longrightarrow> i < n \<Longrightarrow>
   store s a i v = Some (s\<lparr>ram := (ram s)(a := (ram s a)(i := v))\<rparr>)"
  by (simp add: store_def)

lemma free_live:
  "live s p = Some n \<Longrightarrow> p \<noteq> NULL \<Longrightarrow> free s p = Some (s\<lparr>live := (live s)(p := None)\<rparr>)"
  by (simp add: free_def)

section \<open>The loops of \<^verbatim>\<open>PINS_destroyInstance\<close>, one pin level\<close>

lemma destroy_pins_exit:
  "live s h = Some 2 \<Longrightarrow> \<not> pin < unat (ram s h 0) \<Longrightarrow> destroy_pins s h port pin = Some s"
  by (subst destroy_pins.simps) (simp add: num_of_pins_def load_live)

lemma destroy_pins_skip:
  assumes "live s h = Some 2" "pin < unat (ram s h 0)" "live s (ram s h 1) = Some 4" "port < 4"
    "live s (ram s (ram s h 1) port) = Some m" "pin < m"
    "ram s (ram s (ram s h 1) port) pin = NULL"
  shows "destroy_pins s h port pin = destroy_pins s h port (pin + 1)"
  using assms
  by (subst destroy_pins.simps)
     (simp add: num_of_pins_def pins_port_pin_def pins_port_def pins_def load_live)

lemma destroy_pins_step:
  assumes "live s h = Some 2" "pin < unat (ram s h 0)" "live s (ram s h 1) = Some 4" "port < 4"
    "live s (ram s (ram s h 1) port) = Some m" "pin < m"
    "ram s (ram s (ram s h 1) port) pin = f" "f \<noteq> NULL" "live s f = Some k"
    "f \<noteq> h" "f \<noteq> ram s h 1" "f \<noteq> ram s (ram s h 1) port"
  shows "destroy_pins s h port pin =
         destroy_pins (s\<lparr>live := (live s)(f := None),
                         ram := (ram s)(ram s (ram s h 1) port := (ram s (ram s (ram s h 1) port))(pin := NULL))\<rparr>)
           h port (pin + 1)"
  using assms
  by (subst destroy_pins.simps)
     (simp add: num_of_pins_def pins_port_pin_def pins_port_def pins_def load_live free_live store_live)

subsection \<open>Fresh blocks\<close>

lemma word_lt_succ: "(b::word32) + 1 \<noteq> 0 \<Longrightarrow> a \<le> b \<Longrightarrow> a < b + 1"
  using unatSuc [of b] by (simp add: word_less_nat_alt word_le_nat_alt add.commute)

lemma heap_ok_fresh: "heap_ok s \<Longrightarrow> brk s \<noteq> NULL \<Longrightarrow> live s (brk s) = None"
  unfolding heap_ok_def by (metis less_irrefl)

lemma heap_ok_grant:
  assumes "heap_ok s" "brk s \<noteq> NULL"
  shows "heap_ok (s\<lparr>live := (live s)(brk s \<mapsto> k), brk := brk s + 1, plan := pl\<rparr>)"
  unfolding heap_ok_def
proof (intro conjI impI allI)
  show "live (s\<lparr>live := (live s)(brk s \<mapsto> k), brk := brk s + 1, plan := pl\<rparr>) NULL = None"
    using assms by (simp add: heap_ok_def)
next
  fix a
  assume nz: "brk (s\<lparr>live := (live s)(brk s \<mapsto> k), brk := brk s + 1, plan := pl\<rparr>) \<noteq> NULL"
    and lv: "live (s\<lparr>live := (live s)(brk s \<mapsto> k), brk := brk s + 1, plan := pl\<rparr>) a \<noteq> None"
  from lv have "a = brk s \<or> live s a \<noteq> None" by (simp split: if_splits)
  then have "a \<le> brk s" using assms by (auto simp: heap_ok_def)
  then show "a < brk (s\<lparr>live := (live s)(brk s \<mapsto> k), brk := brk s + 1, plan := pl\<rparr>)"
    using nz by (simp add: word_lt_succ)
qed

lemma heap_ok_ram [simp]: "heap_ok (s\<lparr>ram := m\<rparr>) = heap_ok s"
  by (simp add: heap_ok_def)

lemma heap_ok_plan [simp]: "heap_ok (s\<lparr>plan := m\<rparr>) = heap_ok s"
  by (simp add: heap_ok_def)

lemma malloc_cases:
  assumes "malloc s b = (p, s')"
  obtains (refused) "p = NULL" "live s' = live s" "ram s' = ram s" "brk s' = brk s"
  | (granted) "p = brk s" "brk s \<noteq> NULL" "plan s \<noteq> []" 
      "s' = s\<lparr>live := (live s)(brk s \<mapsto> unat b div 4), brk := brk s + 1, plan := tl (plan s)\<rparr>"
  using assms by (auto simp: malloc_def split: list.splits if_splits)

lemma destroy_pins_ok:
  assumes "live s NULL = None" "live s h = Some 2" "ram s h 0 = n" "ram s h 1 = P"
    "live s P = Some 4" "port < 4" "ram s P port = r" "live s r = Some m" "unat n \<le> m"
    "r \<noteq> h" "r \<noteq> P" "h \<noteq> P"
    "\<forall>j. pin \<le> j \<and> j < unat n \<longrightarrow>
        ram s r j = NULL \<or> (live s (ram s r j) \<noteq> None \<and> ram s r j \<notin> {h, P, r})"
    "\<forall>j j'. pin \<le> j \<and> j < j' \<and> j' < unat n \<and> ram s r j \<noteq> NULL \<longrightarrow> ram s r j \<noteq> ram s r j'"
  shows "destroy_pins s h port pin =
     Some (s\<lparr>live := (\<lambda>a. if a \<in> ram s r ` {pin..<unat n} then None else live s a),
             ram := (ram s)(r := (\<lambda>i. if pin \<le> i \<and> i < unat n then NULL else ram s r i))\<rparr>)"
  using assms
proof (induction "unat n - pin" arbitrary: s pin)
  case 0
  then have "\<not> pin < unat (ram s h 0)" by simp
  with 0 have "destroy_pins s h port pin = Some s" by (simp add: destroy_pins_exit)
  moreover have "{pin..<unat n} = {}" using 0 by simp
  moreover have "(\<lambda>i. if pin \<le> i \<and> i < unat n then NULL else ram s r i) = ram s r"
    using 0 by (auto simp: fun_eq_iff)
  ultimately show ?case by simp
next
  case (Suc k)
  then have lt: "pin < unat n" by simp
  let ?f = "ram s r pin"
  show ?case
  proof (cases "?f = NULL")
    case True
    have "destroy_pins s h port pin = destroy_pins s h port (pin + 1)"
      using Suc.prems lt True by (intro destroy_pins_skip[where m=m]) auto
    also have "\<dots> = Some (s\<lparr>live := (\<lambda>a. if a \<in> ram s r ` {pin + 1..<unat n} then None else live s a),
             ram := (ram s)(r := (\<lambda>i. if pin + 1 \<le> i \<and> i < unat n then NULL else ram s r i))\<rparr>)"
      using Suc.prems Suc.hyps(2) by (intro Suc.hyps(1)) auto
    also have "(\<lambda>a. if a \<in> ram s r ` {pin + 1..<unat n} then None else live s a)
        = (\<lambda>a. if a \<in> ram s r ` {pin..<unat n} then None else live s a)"
    proof
      fix a
      have "{pin..<unat n} = insert pin {pin + 1..<unat n}" using lt by auto
      then show "(if a \<in> ram s r ` {pin + 1..<unat n} then None else live s a)
        = (if a \<in> ram s r ` {pin..<unat n} then None else live s a)"
        using True Suc.prems(1) by auto
    qed
    also have "(\<lambda>i. if pin + 1 \<le> i \<and> i < unat n then NULL else ram s r i)
        = (\<lambda>i. if pin \<le> i \<and> i < unat n then NULL else ram s r i)"
      using True by (auto simp: fun_eq_iff le_Suc_eq Suc_le_eq)
    finally show ?thesis .
  next
    case False
    let ?s1 = "s\<lparr>live := (live s)(?f := None), ram := (ram s)(r := (ram s r)(pin := NULL))\<rparr>"
    from Suc.prems(13) lt False have fl: "live s ?f \<noteq> None" "?f \<noteq> h" "?f \<noteq> P" "?f \<noteq> r"
      by auto
    then obtain kk where kk: "live s ?f = Some kk" by auto
    have inj: "ram s r j \<noteq> ?f" if "pin < j" "j < unat n" for j
      using Suc.prems(14) False that by (metis order_refl)
    have "destroy_pins s h port pin = destroy_pins ?s1 h port (pin + 1)"
      using Suc.prems lt False fl kk
      by (simp add: destroy_pins_step[where m=m and k=kk and f="?f"])
    also have "\<dots> = Some (?s1\<lparr>live := (\<lambda>a. if a \<in> ram ?s1 r ` {pin + 1..<unat n} then None else live ?s1 a),
             ram := (ram ?s1)(r := (\<lambda>i. if pin + 1 \<le> i \<and> i < unat n then NULL else ram ?s1 r i))\<rparr>)"
    proof (rule Suc.hyps(1))
      show "k = unat n - (pin + 1)" using Suc.hyps(2) by simp
      show "\<forall>j. pin + 1 \<le> j \<and> j < unat n \<longrightarrow>
        ram ?s1 r j = NULL \<or> (live ?s1 (ram ?s1 r j) \<noteq> None \<and> ram ?s1 r j \<notin> {h, P, r})"
        using Suc.prems(13) inj by auto
      show "\<forall>j j'. pin + 1 \<le> j \<and> j < j' \<and> j' < unat n \<and> ram ?s1 r j \<noteq> NULL \<longrightarrow> ram ?s1 r j \<noteq> ram ?s1 r j'"
        using Suc.prems(14) by auto
    qed (use Suc.prems fl in auto)
    also have "\<dots> = Some (s\<lparr>live := (\<lambda>a. if a \<in> ram s r ` {pin..<unat n} then None else live s a),
             ram := (ram s)(r := (\<lambda>i. if pin \<le> i \<and> i < unat n then NULL else ram s r i))\<rparr>)"
    proof -
      have eq: "{pin..<unat n} = insert pin {pin + 1..<unat n}" using lt by auto
      have img: "ram ?s1 r ` {pin + 1..<unat n} = ram s r ` {pin + 1..<unat n}"
        by (auto simp: image_iff)
      have l: "(\<lambda>a. if a \<in> ram ?s1 r ` {pin + 1..<unat n} then None else live ?s1 a)
          = (\<lambda>a. if a \<in> ram s r ` {pin..<unat n} then None else live s a)"
        unfolding img eq by (auto simp: fun_eq_iff)
      have r: "(ram ?s1)(r := (\<lambda>i. if pin + 1 \<le> i \<and> i < unat n then NULL else ram ?s1 r i))
          = (ram s)(r := (\<lambda>i. if pin \<le> i \<and> i < unat n then NULL else ram s r i))"
        using lt by (auto simp: fun_eq_iff le_Suc_eq Suc_le_eq)
      show ?thesis using l r by simp
    qed
    finally show ?thesis .
  qed
qed

section \<open>The loops of \<^verbatim>\<open>PINS_createInstance\<close> on the path to a handle\<close>

lemma create_funcs_exit:
  "live s h = Some 2 \<Longrightarrow> \<not> func < unat (ram s h 0) \<Longrightarrow> create_funcs s h pin func = Some (h, s)"
  by (subst create_funcs.simps) (simp add: num_of_pins_def load_live)

lemma create_funcs_step:
  assumes run: "create_funcs s h pin func = Some (pm, s')" "pm \<noteq> NULL"
    and pre: "heap_ok s" "live s h = Some 2" "ram s h 1 = P" "live s P = Some 4" "pin < 4"
      "ram s P pin = r" "live s r = Some m" "h \<noteq> P" "r \<noteq> h" "r \<noteq> P"
      "func < unat (ram s h 0)"
  shows "brk s \<noteq> NULL \<and> func < m \<and>
     create_funcs (s\<lparr>live := (live s)(brk s \<mapsto> 3), brk := brk s + 1, plan := tl (plan s),
                     ram := (ram s)(r := (ram s r)(func := brk s))\<rparr>) h pin (func + 1)
       = Some (pm, s')"
proof -
  obtain p s1 where m: "malloc s (of_nat MAX_FUNC * 4) = (p, s1)" by (cases "malloc s (of_nat MAX_FUNC * 4)")
  from m show ?thesis
  proof (cases rule: malloc_cases)
    case refused
    have "live s1 h = Some 2" "live s1 P = Some 4" "live s1 r = Some m" "ram s1 h 1 = P" "ram s1 P pin = r"
      using refused pre by simp_all
    with run m refused pre have False
      by (subst (asm) create_funcs.simps, cases "func < m")
         (auto simp: num_of_pins_def pins_port_pin_def pins_port_def pins_def load_live
               store_live store_def split: Option.bind_splits)
    then show ?thesis ..
  next
    case granted
    have fresh: "live s (brk s) = None" using pre granted by (simp add: heap_ok_fresh)
    then have ne: "brk s \<noteq> h" "brk s \<noteq> P" "brk s \<noteq> r" using pre by auto
    have sz: "unat (of_nat MAX_FUNC * 4 :: word32) div 4 = 3" by (simp add: MAX_FUNC_def)
    have l1: "live s1 h = Some 2" "live s1 P = Some 4" "live s1 r = Some m" "ram s1 h 1 = P" "ram s1 P pin = r"
      using granted pre ne by simp_all
    have fm: "func < m"
    proof (rule ccontr)
      assume "\<not> func < m"
      with run m l1 pre show False
        by (subst (asm) create_funcs.simps)
           (auto simp: num_of_pins_def pins_port_pin_def pins_port_def pins_def load_live store_def
               split: if_splits Option.bind_splits)
    qed
    have "create_funcs s h pin func =
       create_funcs (s1\<lparr>ram := (ram s1)(r := (ram s1 r)(func := p))\<rparr>) h pin (func + 1)"
      using m l1 pre fm granted(1,2)
      by (subst create_funcs.simps)
         (simp add: num_of_pins_def pins_port_pin_def pins_port_def pins_def load_live store_live)
    moreover have "s1\<lparr>ram := (ram s1)(r := (ram s1 r)(func := p))\<rparr> =
       s\<lparr>live := (live s)(brk s \<mapsto> 3), brk := brk s + 1, plan := tl (plan s),
                     ram := (ram s)(r := (ram s r)(func := brk s))\<rparr>"
      using granted sz by simp
    ultimately show ?thesis using run granted fm by simp
  qed
qed

lemma create_funcs_ok:
  assumes "create_funcs s h pin func = Some (pm, s')" "pm \<noteq> NULL"
    "heap_ok s" "live s h = Some 2" "ram s h 0 = n" "ram s h 1 = P" "live s P = Some 4"
    "pin < 4" "ram s P pin = r" "live s r = Some m" "h \<noteq> P" "r \<noteq> h" "r \<noteq> P"
  shows "pm = h \<and> heap_ok s' \<and> (func < unat n \<longrightarrow> unat n \<le> m) \<and>
     (\<forall>a i. \<not> (a = r \<and> func \<le> i \<and> i < unat n) \<longrightarrow> ram s' a i = ram s a i) \<and>
     (\<forall>j. func \<le> j \<and> j < unat n \<longrightarrow> ram s' r j \<noteq> NULL \<and> live s (ram s' r j) = None) \<and>
     (\<forall>j j'. func \<le> j \<and> j < j' \<and> j' < unat n \<longrightarrow> ram s' r j \<noteq> ram s' r j') \<and>
     live s' = (\<lambda>a. if a \<in> ram s' r ` {func..<unat n} then Some 3 else live s a)"
  using assms
proof (induction "unat n - func" arbitrary: s func)
  case 0
  then have "create_funcs s h pin func = Some (h, s)" by (simp add: create_funcs_exit)
  with 0 show ?case by auto
next
  case (Suc k)
  then have lt: "func < unat n" by simp
  let ?p = "brk s"
  let ?s2 = "s\<lparr>live := (live s)(?p \<mapsto> 3), brk := ?p + 1, plan := tl (plan s),
                     ram := (ram s)(r := (ram s r)(func := ?p))\<rparr>"
  have st: "?p \<noteq> NULL \<and> func < m \<and> create_funcs ?s2 h pin (func + 1) = Some (pm, s')"
    using Suc.prems lt by (intro create_funcs_step[where P=P]) auto
  then have nz: "?p \<noteq> NULL" and fm: "func < m"
    and run2: "create_funcs ?s2 h pin (func + 1) = Some (pm, s')" by auto
  have fresh: "live s ?p = None" using Suc.prems nz by (simp add: heap_ok_fresh)
  then have ne: "?p \<noteq> h" "?p \<noteq> P" "?p \<noteq> r" using Suc.prems by auto
  have ok2: "heap_ok ?s2" using heap_ok_grant[OF Suc.prems(3) nz] by simp
  have IH: "pm = h \<and> heap_ok s' \<and> (func + 1 < unat n \<longrightarrow> unat n \<le> m) \<and>
     (\<forall>a i. \<not> (a = r \<and> func + 1 \<le> i \<and> i < unat n) \<longrightarrow> ram s' a i = ram ?s2 a i) \<and>
     (\<forall>j. func + 1 \<le> j \<and> j < unat n \<longrightarrow> ram s' r j \<noteq> NULL \<and> live ?s2 (ram s' r j) = None) \<and>
     (\<forall>j j'. func + 1 \<le> j \<and> j < j' \<and> j' < unat n \<longrightarrow> ram s' r j \<noteq> ram s' r j') \<and>
     live s' = (\<lambda>a. if a \<in> ram s' r ` {func + 1..<unat n} then Some 3 else live ?s2 a)"
  proof (rule Suc.hyps(1)[OF _ run2 Suc.prems(2) ok2])
    show "k = unat n - (func + 1)" using Suc.hyps(2) by simp
  qed (use Suc.prems ne in auto)
  then have frame2: "\<And>a i. \<not> (a = r \<and> func + 1 \<le> i \<and> i < unat n) \<Longrightarrow> ram s' a i = ram ?s2 a i"
    and cells2: "\<And>j. func + 1 \<le> j \<Longrightarrow> j < unat n \<Longrightarrow> ram s' r j \<noteq> NULL \<and> live ?s2 (ram s' r j) = None"
    and inj2: "\<And>j j'. func + 1 \<le> j \<Longrightarrow> j < j' \<Longrightarrow> j' < unat n \<Longrightarrow> ram s' r j \<noteq> ram s' r j'"
    and live2: "live s' = (\<lambda>a. if a \<in> ram s' r ` {func + 1..<unat n} then Some 3 else live ?s2 a)"
    by blast+
  have at_func: "ram s' r func = ?p" using frame2[of r func] by simp
  have c1: "pm = h" "heap_ok s'" using IH by auto
  have c2: "unat n \<le> m" using IH fm lt by (cases "func + 1 < unat n") auto
  have c3: "\<forall>a i. \<not> (a = r \<and> func \<le> i \<and> i < unat n) \<longrightarrow> ram s' a i = ram s a i"
  proof (intro allI impI)
    fix a i assume a: "\<not> (a = r \<and> func \<le> i \<and> i < unat n)"
    then have "ram s' a i = ram ?s2 a i" by (intro frame2) auto
    also have "\<dots> = ram s a i" using a lt by auto
    finally show "ram s' a i = ram s a i" .
  qed
  have c4: "\<forall>j. func \<le> j \<and> j < unat n \<longrightarrow> ram s' r j \<noteq> NULL \<and> live s (ram s' r j) = None"
  proof (intro allI impI)
    fix j assume j: "func \<le> j \<and> j < unat n"
    show "ram s' r j \<noteq> NULL \<and> live s (ram s' r j) = None"
    proof (cases "j = func")
      case True
      then show ?thesis using at_func nz fresh by simp
    next
      case False
      with j have "ram s' r j \<noteq> NULL \<and> live ?s2 (ram s' r j) = None" by (intro cells2) auto
      then show ?thesis by (auto split: if_splits)
    qed
  qed
  have c5: "\<forall>j j'. func \<le> j \<and> j < j' \<and> j' < unat n \<longrightarrow> ram s' r j \<noteq> ram s' r j'"
  proof (intro allI impI)
    fix j j' assume j: "func \<le> j \<and> j < j' \<and> j' < unat n"
    show "ram s' r j \<noteq> ram s' r j'"
    proof (cases "j = func")
      case True
      have "live ?s2 (ram s' r j') = None" using j True cells2[of j'] by auto
      then have "ram s' r j' \<noteq> ?p" by (auto split: if_splits)
      then show ?thesis using True at_func by simp
    next
      case False
      then show ?thesis using j inj2[of j j'] by auto
    qed
  qed
  have eq: "{func..<unat n} = insert func {func + 1..<unat n}" using lt by auto
  have c6: "live s' = (\<lambda>a. if a \<in> ram s' r ` {func..<unat n} then Some 3 else live s a)"
    unfolding eq using live2 at_func by (auto simp: fun_eq_iff)
  show ?case using c1 c2 c3 c4 c5 c6 by blast
qed

lemma create_ports_exit: "\<not> pin < 4 \<Longrightarrow> create_ports s h pin = Some (h, s)"
  by (subst create_ports.simps) (simp add: MAX_PORTS_def)

lemma row_words_le: "unat ((n::word32) * 4) div 4 \<le> unat n"
proof -
  have "unat (n * 4) \<le> unat n * 4"
    by (simp add: unat_word_ariths)
  then show ?thesis by simp
qed

lemma create_ports_step:
  assumes run: "create_ports s h pin = Some (pm, s')" "pm \<noteq> NULL"
    and pre: "heap_ok s" "live s h = Some 2" "ram s h 0 = n" "ram s h 1 = P" "live s P = Some 4"
      "h \<noteq> P" "pin < 4"
  shows "brk s \<noteq> NULL \<and> (\<exists>s3.
     create_funcs (s\<lparr>live := (live s)(brk s \<mapsto> unat (n * 4) div 4), brk := brk s + 1,
                      plan := tl (plan s), ram := (ram s)(P := (ram s P)(pin := brk s))\<rparr>) h pin 0
       = Some (h, s3) \<and>
     create_ports s3 h (pin + 1) = Some (pm, s'))"
proof -
  obtain p s1 where m: "malloc s (n * 4) = (p, s1)" by (cases "malloc s (n * 4)")
  from m show ?thesis
  proof (cases rule: malloc_cases)
    case refused
    have "live s1 h = Some 2" "live s1 P = Some 4" "ram s1 h 1 = P" "ram s1 h 0 = n"
      using refused pre by simp_all
    with run m refused pre have False
      by (subst (asm) create_ports.simps)
         (auto simp: num_of_pins_def pins_port_def pins_def load_live MAX_PORTS_def
               store_live split: Option.bind_splits)
    then show ?thesis ..
  next
    case granted
    let ?s2 = "s\<lparr>live := (live s)(brk s \<mapsto> unat (n * 4) div 4), brk := brk s + 1,
                      plan := tl (plan s), ram := (ram s)(P := (ram s P)(pin := brk s))\<rparr>"
    have fresh: "live s (brk s) = None" using pre granted by (simp add: heap_ok_fresh)
    then have ne: "brk s \<noteq> h" "brk s \<noteq> P" using pre by auto
    have l1: "live s1 h = Some 2" "live s1 P = Some 4" "ram s1 h 1 = P" "ram s1 h 0 = n"
      using granted pre ne by simp_all
    have s2: "s1\<lparr>ram := (ram s1)(P := (ram s1 P)(pin := p))\<rparr> = ?s2"
      using granted by simp
    have unf: "create_ports s h pin =
       create_funcs ?s2 h pin 0 \<bind> (\<lambda>(pm, s3). if pm = NULL then Some (NULL, s3)
             else create_ports s3 h (pin + 1))"
      using m l1 pre granted(1,2) unfolding s2[symmetric]
      by (subst create_ports.simps)
         (simp add: num_of_pins_def pins_port_def pins_def load_live store_live MAX_PORTS_def)
    from run unf obtain pm' s3 where f: "create_funcs ?s2 h pin 0 = Some (pm', s3)"
      and rest: "(if pm' = NULL then Some (NULL, s3) else create_ports s3 h (pin + 1)) = Some (pm, s')"
      by (auto split: Option.bind_splits)
    from rest run(2) have nz: "pm' \<noteq> NULL" and cp: "create_ports s3 h (pin + 1) = Some (pm, s')"
      by (auto split: if_splits)
    have ok2: "heap_ok ?s2" using heap_ok_grant[OF pre(1) granted(2)] by simp
    have "pm' = h"
      using create_funcs_ok[OF f nz ok2, where n=n and P=P and r="brk s" and m="unat (n * 4) div 4"]
        pre ne by simp
    with f cp granted show ?thesis by auto
  qed
qed

lemma built_refl:
  "heap_ok s \<Longrightarrow> live s h = Some 2 \<Longrightarrow> live s (ram s h 1) = Some 4 \<Longrightarrow> 4 \<le> pin \<Longrightarrow> built s s h pin"
  by (auto simp: built_def old_kept_def new_blocks_def rows_built_def rows_sep_def)

lemma create_ports_ok:
  assumes "create_ports s h pin = Some (pm, s')" "pm \<noteq> NULL" "heap_ok s" "live s h = Some 2"
    "ram s h 0 = n" "ram s h 1 = P" "live s P = Some 4" "h \<noteq> P"
  shows "pm = h \<and> built s s' h pin \<and> (pin < 4 \<longrightarrow> unat n \<le> unat (n * 4) div 4)"
  using assms
proof (induction "4 - pin" arbitrary: s pin)
  case 0
  then have "create_ports s h pin = Some (h, s)" by (simp add: create_ports_exit)
  with 0 show ?case by (auto intro: built_refl)
next
  case (Suc k)
  then have lt: "pin < 4" by simp
  let ?N = "unat n"
  let ?m = "unat (n * 4) div 4"
  let ?r = "brk s"
  let ?s2 = "s\<lparr>live := (live s)(?r \<mapsto> ?m), brk := ?r + 1,
                      plan := tl (plan s), ram := (ram s)(P := (ram s P)(pin := ?r))\<rparr>"
  from create_ports_step[OF Suc.prems(1,2,3,4,5,6,7,8) lt]
  obtain s3 where nz: "?r \<noteq> NULL" and f: "create_funcs ?s2 h pin 0 = Some (h, s3)"
    and cp: "create_ports s3 h (pin + 1) = Some (pm, s')" by auto
  have fresh: "live s ?r = None" using Suc.prems nz by (simp add: heap_ok_fresh)
  then have ne: "?r \<noteq> h" "?r \<noteq> P" using Suc.prems by auto
  have hnz: "h \<noteq> NULL" using Suc.prems(3,4) by (auto simp: heap_ok_def)
  have ok2: "heap_ok ?s2" using heap_ok_grant[OF Suc.prems(3) nz] by simp
  have F3: "h = h \<and> heap_ok s3 \<and> (0 < ?N \<longrightarrow> ?N \<le> ?m) \<and>
     (\<forall>a i. \<not> (a = ?r \<and> 0 \<le> i \<and> i < ?N) \<longrightarrow> ram s3 a i = ram ?s2 a i) \<and>
     (\<forall>j. 0 \<le> j \<and> j < ?N \<longrightarrow> ram s3 ?r j \<noteq> NULL \<and> live ?s2 (ram s3 ?r j) = None) \<and>
     (\<forall>j j'. 0 \<le> j \<and> j < j' \<and> j' < ?N \<longrightarrow> ram s3 ?r j \<noteq> ram s3 ?r j') \<and>
     live s3 = (\<lambda>a. if a \<in> ram s3 ?r ` {0..<?N} then Some 3 else live ?s2 a)"
    by (rule create_funcs_ok[OF f hnz ok2, where P=P and m="?m"]) (use Suc.prems ne lt in auto)
  then have ok3: "heap_ok s3" and sz: "0 < ?N \<Longrightarrow> ?N \<le> ?m"
    and frame3: "\<And>a i. \<not> (a = ?r \<and> i < ?N) \<Longrightarrow> ram s3 a i = ram ?s2 a i"
    and cells3: "\<And>j. j < ?N \<Longrightarrow> ram s3 ?r j \<noteq> NULL \<and> live ?s2 (ram s3 ?r j) = None"
    and inj3: "\<And>j j'. j < j' \<Longrightarrow> j' < ?N \<Longrightarrow> ram s3 ?r j \<noteq> ram s3 ?r j'"
    and live3: "live s3 = (\<lambda>a. if a \<in> ram s3 ?r ` {0..<?N} then Some 3 else live ?s2 a)"
    by auto
  have mN: "?m = ?N" using sz row_words_le[of n] by (cases "0 < ?N") auto
  have l2: "\<And>a. live ?s2 a = (if a = ?r then Some ?m else live s a)" by simp
  have cell_new: "ram s3 ?r j \<noteq> ?r \<and> live s (ram s3 ?r j) = None" if "j < ?N" for j
    using cells3[OF that] by (auto split: if_splits)
  have notcell: "a \<notin> ram s3 ?r ` {0..<?N}" if "live s a \<noteq> None \<or> a = ?r" for a
    using cell_new that by force
  have old3: "\<And>a. live s a \<noteq> None \<Longrightarrow> live s3 a = live s a"
    using notcell fresh unfolding live3 by auto
  have r3: "live s3 ?r = Some ?N" using notcell[of ?r] mN unfolding live3 by simp
  have c3: "\<And>j. j < ?N \<Longrightarrow> live s3 (ram s3 ?r j) = Some 3" unfolding live3 by auto
  have dom3: "\<And>a. live s3 a \<noteq> None \<Longrightarrow> live s a \<noteq> None \<or> a = ?r \<or> (\<exists>j<?N. a = ram s3 ?r j)"
    unfolding live3 by (auto split: if_splits)
  have h3: "live s3 h = Some 2" "live s3 P = Some 4" using old3 Suc.prems by auto
  have rh3: "ram s3 h = ram s h"
  proof
    fix i show "ram s3 h i = ram s h i" using frame3[of h i] ne Suc.prems(8) by auto
  qed
  have IH: "pm = h \<and> built s3 s' h (pin + 1) \<and> (pin + 1 < 4 \<longrightarrow> ?N \<le> ?m)"
  proof (rule Suc.hyps(1)[OF _ cp Suc.prems(2) ok3])
    show "k = 4 - (pin + 1)" using Suc.hyps(2) by simp
  qed (use h3 rh3 Suc.prems in auto)
  then have pmh: "pm = h" and b: "built s3 s' h (pin + 1)" by auto
  let ?R = "ram s' P"
  let ?F = "\<lambda>p. ram s' (?R p)"
  have P3: "ram s3 h 1 = P" "ram s3 h 0 = n" using rh3 Suc.prems by auto
  from b P3 have b1: "heap_ok s'" "live s' h = Some 2" "live s' P = Some 4" "ram s' h = ram s3 h"
    and bk: "old_kept s3 s' P (pin + 1)" and bn: "new_blocks s3 s' P ?N (pin + 1)"
    and br: "rows_built s3 s' P ?N (pin + 1)" and bs: "rows_sep s' P ?N (pin + 1)"
    by (simp_all add: built_def)
  have b2: "\<And>a i. live s3 a \<noteq> None \<Longrightarrow> \<not> (a = P \<and> pin + 1 \<le> i) \<Longrightarrow> ram s' a i = ram s3 a i"
    and b3: "\<And>a. live s3 a \<noteq> None \<Longrightarrow> live s' a = live s3 a"
    using bk unfolding old_kept_def by blast+
  have b4: "\<And>a. live s' a \<noteq> None \<Longrightarrow>
           live s3 a \<noteq> None \<or> (\<exists>p. pin + 1 \<le> p \<and> p < 4 \<and> (a = ?R p \<or> (\<exists>j<?N. a = ?F p j)))"
    using bn unfolding new_blocks_def by blast
  have b5: "\<And>p. pin + 1 \<le> p \<Longrightarrow> p < 4 \<Longrightarrow>
           ?R p \<noteq> NULL \<and> live s3 (?R p) = None \<and> live s' (?R p) = Some ?N \<and>
           (\<forall>j<?N. ?F p j \<noteq> NULL \<and> live s3 (?F p j) = None \<and> live s' (?F p j) = Some 3 \<and>
                   ram s' (?F p j) = ram s3 (?F p j))"
    using br unfolding rows_built_def by blast
  have b6: "\<And>p p'. pin + 1 \<le> p \<Longrightarrow> p < 4 \<Longrightarrow> pin + 1 \<le> p' \<Longrightarrow> p' < 4 \<Longrightarrow>
           (p \<noteq> p' \<longrightarrow> ?R p \<noteq> ?R p') \<and>
           (\<forall>j<?N. ?F p j \<noteq> ?R p' \<and> (\<forall>j'<?N. (p \<noteq> p' \<or> j \<noteq> j') \<longrightarrow> ?F p j \<noteq> ?F p' j'))"
    using bs unfolding rows_sep_def by blast
  have Rpin: "?R pin = ?r" using b2[of P pin] h3 frame3[of P pin] ne by simp
  have rr: "ram s' ?r = ram s3 ?r"
  proof
    fix i show "ram s' ?r i = ram s3 ?r i" using b2[of ?r i] r3 ne by simp
  qed
  have Fpin: "\<And>j. ?F pin j = ram s3 ?r j" using Rpin rr by simp
  have sub3: "\<And>a. live s3 a = None \<Longrightarrow> live s a = None" using old3 by force
  have g3: "ram s' h = ram s h" using b1 rh3 by simp
  have g4: "\<forall>a i. live s a \<noteq> None \<and> \<not> (a = P \<and> pin \<le> i) \<longrightarrow> ram s' a i = ram s a i"
  proof (intro allI impI)
    fix a i assume a: "live s a \<noteq> None \<and> \<not> (a = P \<and> pin \<le> i)"
    then have "live s3 a \<noteq> None" using old3 by simp
    then have "ram s' a i = ram s3 a i" using a by (intro b2) auto
    also have "\<dots> = ram ?s2 a i" using a fresh by (intro frame3) auto
    also have "\<dots> = ram s a i" using a by auto
    finally show "ram s' a i = ram s a i" .
  qed
  have g5: "\<forall>a. live s a \<noteq> None \<longrightarrow> live s' a = live s a"
    using old3 b3 by simp
  have g6: "\<forall>a. live s' a \<noteq> None \<longrightarrow>
           live s a \<noteq> None \<or> (\<exists>p. pin \<le> p \<and> p < 4 \<and> (a = ?R p \<or> (\<exists>j<?N. a = ?F p j)))"
  proof (intro allI impI)
    fix a assume "live s' a \<noteq> None"
    from b4[OF this] show "live s a \<noteq> None \<or> (\<exists>p. pin \<le> p \<and> p < 4 \<and> (a = ?R p \<or> (\<exists>j<?N. a = ?F p j)))"
    proof
      assume "live s3 a \<noteq> None"
      from dom3[OF this] show ?thesis using Rpin Fpin lt by (metis order_refl)
    next
      assume "\<exists>p. pin + 1 \<le> p \<and> p < 4 \<and> (a = ?R p \<or> (\<exists>j<?N. a = ?F p j))"
      then show ?thesis by (metis Suc_leD Suc_eq_plus1)
    qed
  qed
  have row_pin: "?R pin \<noteq> NULL \<and> live s (?R pin) = None \<and> live s' (?R pin) = Some ?N \<and>
           (\<forall>j<?N. ?F pin j \<noteq> NULL \<and> live s (?F pin j) = None \<and> live s' (?F pin j) = Some 3 \<and>
                   ram s' (?F pin j) = ram s (?F pin j))"
  proof (intro conjI allI impI)
    show "?R pin \<noteq> NULL" "live s (?R pin) = None" "live s' (?R pin) = Some ?N"
      using Rpin nz fresh b3[of ?r] r3 by simp_all
  next
    fix j assume j: "j < ?N"
    let ?c = "ram s3 ?r j"
    have cP: "?c \<noteq> P" "?c \<noteq> ?r" using cell_new[OF j] Suc.prems(7) by auto
    show "?F pin j \<noteq> NULL" "live s (?F pin j) = None" "live s' (?F pin j) = Some 3"
      using Fpin cells3[OF j] cell_new[OF j] c3[OF j] b3[of ?c] by simp_all
    have "ram s' ?c = ram s3 ?c"
    proof
      fix i show "ram s' ?c i = ram s3 ?c i" using b2[of ?c i] c3[OF j] cP by simp
    qed
    also have "\<dots> = ram ?s2 ?c"
    proof
      fix i show "ram s3 ?c i = ram ?s2 ?c i" using frame3[of ?c i] cP by simp
    qed
    also have "\<dots> = ram s ?c" using cP by simp
    finally show "ram s' (?F pin j) = ram s (?F pin j)" using Fpin by simp
  qed
  have row_up: "?R p \<noteq> NULL \<and> live s (?R p) = None \<and> live s' (?R p) = Some ?N \<and>
           (\<forall>j<?N. ?F p j \<noteq> NULL \<and> live s (?F p j) = None \<and> live s' (?F p j) = Some 3 \<and>
                   ram s' (?F p j) = ram s (?F p j))" if p: "pin + 1 \<le> p" "p < 4" for p
  proof (intro conjI allI impI)
    show "?R p \<noteq> NULL" "live s (?R p) = None" "live s' (?R p) = Some ?N"
      using b5[OF p] sub3 by auto
  next
    fix j assume j: "j < ?N"
    let ?c = "?F p j"
    have c: "?c \<noteq> NULL" "live s3 ?c = None" "live s' ?c = Some 3" "ram s' ?c = ram s3 ?c"
      using b5[OF p] j by auto
    then have cP: "?c \<noteq> P" "?c \<noteq> ?r" using h3 r3 by auto
    show "?c \<noteq> NULL" "live s ?c = None" "live s' ?c = Some 3" using c sub3 by auto
    have "ram s3 ?c = ram ?s2 ?c"
    proof
      fix i show "ram s3 ?c i = ram ?s2 ?c i" using frame3[of ?c i] cP by simp
    qed
    also have "\<dots> = ram s ?c" using cP by simp
    finally show "ram s' ?c = ram s ?c" using c by simp
  qed
  have g7: "\<forall>p. pin \<le> p \<and> p < 4 \<longrightarrow>
           ?R p \<noteq> NULL \<and> live s (?R p) = None \<and> live s' (?R p) = Some ?N \<and>
           (\<forall>j<?N. ?F p j \<noteq> NULL \<and> live s (?F p j) = None \<and> live s' (?F p j) = Some 3 \<and>
                   ram s' (?F p j) = ram s (?F p j))"
  proof (intro allI impI)
    fix p assume "pin \<le> p \<and> p < 4"
    then consider "p = pin" | "pin + 1 \<le> p" "p < 4" by force
    then show "?R p \<noteq> NULL \<and> live s (?R p) = None \<and> live s' (?R p) = Some ?N \<and>
           (\<forall>j<?N. ?F p j \<noteq> NULL \<and> live s (?F p j) = None \<and> live s' (?F p j) = Some 3 \<and>
                   ram s' (?F p j) = ram s (?F p j))"
      using row_pin row_up by cases auto
  qed
  have lv_pin: "live s3 (?R pin) \<noteq> None" "\<And>j. j < ?N \<Longrightarrow> live s3 (?F pin j) \<noteq> None"
    using Rpin r3 Fpin c3 by auto
  have lv_up: "\<And>p. pin + 1 \<le> p \<Longrightarrow> p < 4 \<Longrightarrow> live s3 (?R p) = None"
      "\<And>p j. pin + 1 \<le> p \<Longrightarrow> p < 4 \<Longrightarrow> j < ?N \<Longrightarrow> live s3 (?F p j) = None"
    using b5 by auto
  have g8: "\<forall>p p'. pin \<le> p \<and> p < 4 \<and> pin \<le> p' \<and> p' < 4 \<longrightarrow>
           (p \<noteq> p' \<longrightarrow> ?R p \<noteq> ?R p') \<and>
           (\<forall>j<?N. ?F p j \<noteq> ?R p' \<and> (\<forall>j'<?N. (p \<noteq> p' \<or> j \<noteq> j') \<longrightarrow> ?F p j \<noteq> ?F p' j'))"
  proof (intro allI impI)
    fix p p' assume pp: "pin \<le> p \<and> p < 4 \<and> pin \<le> p' \<and> p' < 4"
    then consider (both) "p = pin" "p' = pin" | (first) "p = pin" "pin + 1 \<le> p'" "p' < 4"
      | (second) "pin + 1 \<le> p" "p < 4" "p' = pin" | (up) "pin + 1 \<le> p" "p < 4" "pin + 1 \<le> p'" "p' < 4"
      by force
    then show "(p \<noteq> p' \<longrightarrow> ?R p \<noteq> ?R p') \<and>
           (\<forall>j<?N. ?F p j \<noteq> ?R p' \<and> (\<forall>j'<?N. (p \<noteq> p' \<or> j \<noteq> j') \<longrightarrow> ?F p j \<noteq> ?F p' j'))"
    proof cases
      case both
      have "\<And>j j'. j < ?N \<Longrightarrow> j' < ?N \<Longrightarrow> j \<noteq> j' \<Longrightarrow> ram s3 ?r j \<noteq> ram s3 ?r j'"
        using inj3 by (metis nat_neq_iff)
      then show ?thesis using both Rpin Fpin cell_new by auto
    next
      case first
      then show ?thesis using lv_pin lv_up[of p'] by (metis not_None_eq option.distinct(1))
    next
      case second
      then show ?thesis using lv_pin lv_up[of p] by (metis not_None_eq option.distinct(1))
    next
      case up
      then show ?thesis using b6[of p p'] by blast
    qed
  qed
  have "built s s' h pin"
    unfolding built_def old_kept_def new_blocks_def rows_built_def rows_sep_def
    using b1 g3 g4 g5 g6 g7 g8 Suc.prems(5,6) by simp
  moreover have "?N \<le> ?m" using mN by simp
  ultimately show ?case using pmh by simp
qed

section \<open>Destroying a partial instance\<close>

lemma destroy_ports_exit: "\<not> port < 4 \<Longrightarrow> destroy_ports s h port = Some s"
  by (subst destroy_ports.simps) (simp add: MAX_PORTS_def)

section \<open>A returned handle is a live matrix\<close>

lemma create_success:
  assumes run: "PINS_createInstance s n = Some (h, s')" "h \<noteq> NULL" and ok: "heap_ok s"
  shows "h = brk s \<and> brk s \<noteq> NULL \<and> brk s + 1 \<noteq> NULL \<and> live s (brk s) = None \<and> live s (brk s + 1) = None \<and>
     built (s\<lparr>live := (live s)(brk s \<mapsto> 2, brk s + 1 \<mapsto> 4), brk := brk s + 1 + 1,
              plan := tl (tl (plan s)),
              ram := (ram s)(brk s := (ram s (brk s))(0 := n, 1 := brk s + 1))\<rparr>) s' h 0 \<and>
     unat n \<le> unat (n * 4) div 4"
proof -
  obtain p1 s1 where m1: "malloc s 8 = (p1, s1)" by (cases "malloc s 8")
  from m1 show ?thesis
  proof (cases rule: malloc_cases)
    case refused
    with run m1 show ?thesis by (simp add: PINS_createInstance_def)
  next
    case g1: granted
    have fresh1: "live s (brk s) = None" using ok g1 by (simp add: heap_ok_fresh)
    have ok1: "heap_ok s1" unfolding g1(4) by (rule heap_ok_grant[OF ok g1(2)])
    have l1: "live s1 p1 = Some 2" using g1 by simp
    let ?s2 = "s1\<lparr>ram := (ram s1)(p1 := (ram s1 p1)(0 := n))\<rparr>"
    have ok2: "heap_ok ?s2" using ok1 by simp
    obtain p2 s3 where m2: "malloc ?s2 (of_nat MAX_PORTS * 4) = (p2, s3)"
      by (cases "malloc ?s2 (of_nat MAX_PORTS * 4)")
    from m2 show ?thesis
    proof (cases rule: malloc_cases)
      case refused
      then have "live s3 p1 = Some 2" using l1 by simp
      with run m1 m2 g1(1,2) l1 refused(1) show ?thesis
        by (auto simp: PINS_createInstance_def store_live pins_def load_live
              split: Option.bind_splits)
    next
      case g2: granted
      have b2: "brk ?s2 = brk s + 1" using g1 by simp
      have fresh2: "live ?s2 (brk s + 1) = None" using heap_ok_fresh[OF ok2] g2(2) b2 by simp
      then have ne: "brk s + 1 \<noteq> brk s" using g1 by auto
      have fresh2': "live s (brk s + 1) = None" using fresh2 g1 ne by simp
      have sz: "unat (of_nat MAX_PORTS * 4 :: word32) div 4 = 4" by (simp add: MAX_PORTS_def)
      let ?s4 = "s3\<lparr>ram := (ram s3)(p1 := (ram s3 p1)(1 := p2))\<rparr>"
      have l3: "live s3 p1 = Some 2" using g2 l1 ne g1(1) b2 by simp
      have cp: "create_ports ?s4 p1 0 = Some (h, s')"
        using run m1 m2 g1(1,2) l1 l3 g2(1,2)
        by (simp add: PINS_createInstance_def store_live pins_def load_live)
      have s4: "?s4 = s\<lparr>live := (live s)(brk s \<mapsto> 2, brk s + 1 \<mapsto> 4), brk := brk s + 1 + 1,
              plan := tl (tl (plan s)),
              ram := (ram s)(brk s := (ram s (brk s))(0 := n, 1 := brk s + 1))\<rparr>"
        using g1 g2 sz by simp
      have "heap_ok s3" unfolding g2(4) by (rule heap_ok_grant[OF ok2 g2(2)])
      then have ok4: "heap_ok ?s4" by simp
      have "h = p1 \<and> built ?s4 s' p1 0 \<and> ((0::nat) < 4 \<longrightarrow> unat n \<le> unat (n * 4) div 4)"
        by (rule create_ports_ok[OF cp run(2) ok4, where P=p2])
           (use g1 g2 ne b2 sz in simp_all)
      then show ?thesis using s4 g1(1,2) g2(2) b2 fresh1 fresh2' by simp
    qed
  qed
qed

lemma create_ok:
  assumes run: "PINS_createInstance s n = Some (h, s')" "h \<noteq> NULL" and ok: "heap_ok s"
  shows "live_matrix s' h" "ram s' h 0 = n" "heap_ok s'"
    and "\<And>a. live s a \<noteq> None \<Longrightarrow> live s' a = live s a \<and> ram s' a = ram s a"
    and "\<And>a. a \<in> blocks s' h \<Longrightarrow> live s a = None"
    and "\<And>a. live s' a \<noteq> None \<Longrightarrow> live s a \<noteq> None \<or> a \<in> blocks s' h"
    and "\<And>p j. p < 4 \<Longrightarrow> j < unat n \<Longrightarrow>
           ram s' (ram s' (ram s' (ram s' h 1) p) j) = ram s (ram s' (ram s' (ram s' h 1) p) j)"
    and "unat n \<le> unat (n * 4) div 4"
proof -
  let ?P = "brk s + 1"
  let ?N = "unat n"
  let ?s4 = "s\<lparr>live := (live s)(brk s \<mapsto> 2, ?P \<mapsto> 4), brk := brk s + 1 + 1,
              plan := tl (tl (plan s)),
              ram := (ram s)(brk s := (ram s (brk s))(0 := n, 1 := ?P))\<rparr>"
  from create_success[OF run ok]
  have hb: "h = brk s" and nz: "h \<noteq> NULL" "?P \<noteq> NULL" and fr: "live s h = None" "live s ?P = None"
    and b: "built ?s4 s' h 0" and sz: "unat n \<le> unat (n * 4) div 4" using run(2) by auto
  show "unat n \<le> unat (n * 4) div 4" by (rule sz)
  have hP: "h \<noteq> ?P"
  proof
    assume e: "h = ?P"
    have "?P \<noteq> brk s" by (metis add_cancel_right_right one_neq_zero)
    with e hb show False by simp
  qed
  have r4: "ram ?s4 h 0 = n" "ram ?s4 h 1 = ?P" using hb by simp_all
  have l4: "live ?s4 a = (if a = h \<or> a = ?P then (if a = ?P then Some 4 else Some 2) else live s a)" for a
    using hb by simp
  let ?R = "ram s' ?P"
  let ?F = "\<lambda>p. ram s' (?R p)"
  from b r4 have b1: "heap_ok s'" "live s' h = Some 2" "live s' ?P = Some 4" "ram s' h = ram ?s4 h"
    and bk: "old_kept ?s4 s' ?P 0" and bn: "new_blocks ?s4 s' ?P ?N 0"
    and br: "rows_built ?s4 s' ?P ?N 0" and bs: "rows_sep s' ?P ?N 0"
    unfolding built_def by simp_all
  have hd: "ram s' h 0 = n" "ram s' h 1 = ?P" using b1(4) r4 by simp_all
  show "ram s' h 0 = n" by (rule hd)
  show "heap_ok s'" by (rule b1)
  have b2: "\<And>a i. live ?s4 a \<noteq> None \<Longrightarrow> a \<noteq> ?P \<Longrightarrow> ram s' a i = ram ?s4 a i"
    and b3: "\<And>a. live ?s4 a \<noteq> None \<Longrightarrow> live s' a = live ?s4 a"
    using bk unfolding old_kept_def by blast+
  have b4: "\<And>a. live s' a \<noteq> None \<Longrightarrow>
           live ?s4 a \<noteq> None \<or> (\<exists>p<4. a = ?R p \<or> (\<exists>j<?N. a = ?F p j))"
    using bn unfolding new_blocks_def by blast
  have b5: "\<And>p. p < 4 \<Longrightarrow>
           ?R p \<noteq> NULL \<and> live ?s4 (?R p) = None \<and> live s' (?R p) = Some ?N \<and>
           (\<forall>j<?N. ?F p j \<noteq> NULL \<and> live ?s4 (?F p j) = None \<and> live s' (?F p j) = Some 3 \<and>
                   ram s' (?F p j) = ram ?s4 (?F p j))"
    using br unfolding rows_built_def by blast
  have b6: "\<forall>p<4. \<forall>p'<4. (p \<noteq> p' \<longrightarrow> ?R p \<noteq> ?R p') \<and>
           (\<forall>j<?N. ?F p j \<noteq> ?R p' \<and> (\<forall>j'<?N. (p \<noteq> p' \<or> j \<noteq> j') \<longrightarrow> ?F p j \<noteq> ?F p' j'))"
    using bs unfolding rows_sep_def by simp
  have none4: "a \<noteq> h \<and> a \<noteq> ?P \<and> live s a = None" if "live ?s4 a = None" for a
    using that unfolding l4 by (auto split: if_splits)
  have Rn: "?R p \<noteq> NULL \<and> ?R p \<noteq> h \<and> ?R p \<noteq> ?P \<and> live s (?R p) = None \<and> live s' (?R p) = Some ?N"
    if "p < 4" for p
  proof -
    from b5[OF that] have x: "?R p \<noteq> NULL" "live ?s4 (?R p) = None" "live s' (?R p) = Some ?N"
      by blast+
    from none4[OF x(2)] x(1,3) show ?thesis by blast
  qed
  have Fn: "?F p j \<noteq> NULL \<and> ?F p j \<noteq> h \<and> ?F p j \<noteq> ?P \<and> live s (?F p j) = None \<and>
      live s' (?F p j) = Some 3 \<and> ram s' (?F p j) = ram ?s4 (?F p j)"
    if "p < 4" "j < ?N" for p j
  proof -
    from b5[OF that(1)] that(2) have x: "?F p j \<noteq> NULL" "live ?s4 (?F p j) = None"
      "live s' (?F p j) = Some 3" "ram s' (?F p j) = ram ?s4 (?F p j)"
      by blast+
    from none4[OF x(2)] x(1,3,4) show ?thesis by blast
  qed
  have sep: "shape_sep h ?P ?R ?F ?N"
    unfolding shape_sep_def using nz hP Rn Fn b6 by simp
  show "live_matrix s' h"
    unfolding live_matrix_def hd using b1 sep Rn Fn by (simp add: heap_ok_def)
  show "live s' a = live s a \<and> ram s' a = ram s a" if a: "live s a \<noteq> None" for a
  proof -
    from a fr have ne: "a \<noteq> h" "a \<noteq> ?P" by auto
    then have l: "live ?s4 a = live s a" unfolding l4 by simp
    then have "live s' a = live s a" using b3[of a] a by simp
    moreover have "ram s' a i = ram s a i" for i
      using b2[of a i] l a ne hb by simp
    ultimately show ?thesis by auto
  qed
  have blk: "a \<in> blocks s' h \<longleftrightarrow> a = h \<or> a = ?P \<or> (\<exists>p<4. a = ?R p \<or> (\<exists>j<?N. a = ?F p j))" for a
    unfolding blocks_def hd by auto
  show "live s a = None" if "a \<in> blocks s' h" for a
    using that fr Rn Fn unfolding blk by auto
  show "live s a \<noteq> None \<or> a \<in> blocks s' h" if "live s' a \<noteq> None" for a
  proof -
    from b4[OF that] show ?thesis
    proof
      assume "live ?s4 a \<noteq> None"
      then show ?thesis unfolding l4 blk by (auto split: if_splits)
    next
      assume "\<exists>p<4. a = ?R p \<or> (\<exists>j<?N. a = ?F p j)"
      then show ?thesis unfolding blk by simp
    qed
  qed
  show "ram s' (ram s' (ram s' (ram s' h 1) p) j) = ram s (ram s' (ram s' (ram s' h 1) p) j)"
    if "p < 4" "j < unat n" for p j
  proof -
    from Fn[OF that] have "?F p j \<noteq> h" "ram s' (?F p j) = ram ?s4 (?F p j)" by auto
    then show ?thesis unfolding hd using hb by simp
  qed
qed

section \<open>Writing a live matrix\<close>

lemma live_matrixD:
  assumes "live_matrix s h"
  shows "live s NULL = None" "live s h = Some 2" "live s (ram s h 1) = Some 4"
    "\<And>p. p < 4 \<Longrightarrow> live s (ram s (ram s h 1) p) = Some (unat (ram s h 0))"
    "\<And>p j. p < 4 \<Longrightarrow> j < unat (ram s h 0) \<Longrightarrow> live s (ram s (ram s (ram s h 1) p) j) = Some 3"
    "shape_sep h (ram s h 1) (ram s (ram s h 1)) (\<lambda>p. ram s (ram s (ram s h 1) p)) (unat (ram s h 0))"
  using assms unfolding live_matrix_def by blast+

lemma write_cell_ok:
  assumes lm: "live_matrix s h" and ix: "port < 4" "pin < unat (ram s h 0)" "func < 3"
  shows "write_cell s h port pin func v =
     Some (s\<lparr>ram := (ram s)(ram s (ram s (ram s h 1) port) pin :=
               (ram s (ram s (ram s (ram s h 1) port) pin))(func := v))\<rparr>)"
  using live_matrixD(2,3)[OF lm] live_matrixD(4)[OF lm ix(1)] live_matrixD(5)[OF lm ix(1,2)] ix
  by (simp add: write_cell_def pins_port_pin_def pins_port_def pins_def load_live store_live)

lemma read_cell_ok:
  assumes lm: "live_matrix s h" and ix: "port < 4" "pin < unat (ram s h 0)" "func < 3"
  shows "read_cell s h port pin func = Some (ram s (ram s (ram s (ram s h 1) port) pin) func)"
  using live_matrixD(2,3)[OF lm] live_matrixD(4)[OF lm ix(1)] live_matrixD(5)[OF lm ix(1,2)] ix
  by (simp add: read_cell_def pins_port_pin_def pins_port_def pins_def load_live)

text \<open>a write changes one word of one cell block and nothing of the pointer structure\<close>

lemma write_cell_frame:
  assumes lm: "live_matrix s h" and ix: "port < 4" "pin < unat (ram s h 0)" "func < 3"
    and w: "write_cell s h port pin func v = Some s'"
  shows "live s' = live s" "ram s' h = ram s h" "ram s' (ram s h 1) = ram s (ram s h 1)"
    "\<And>p. p < 4 \<Longrightarrow> ram s' (ram s (ram s h 1) p) = ram s (ram s (ram s h 1) p)"
    "\<And>p j f. p < 4 \<Longrightarrow> j < unat (ram s h 0) \<Longrightarrow>
        ram s' (ram s (ram s (ram s h 1) p) j) f =
          (if p = port \<and> j = pin \<and> f = func then v else ram s (ram s (ram s (ram s h 1) p) j) f)"
    "brk s' = brk s" "plan s' = plan s"
proof -
  let ?P = "ram s h 1"
  let ?N = "unat (ram s h 0)"
  let ?R = "ram s ?P"
  let ?F = "\<lambda>p. ram s (?R p)"
  let ?c = "?F port pin"
  have s': "s' = s\<lparr>ram := (ram s)(?c := (ram s ?c)(func := v))\<rparr>"
    using write_cell_ok[OF lm ix, of v] w by simp
  have sep: "shape_sep h ?P ?R ?F ?N" by (rule live_matrixD(6)[OF lm])
  have c1: "?c \<noteq> h" "?c \<noteq> ?P" using sep ix unfolding shape_sep_def by blast+
  have c2: "?c \<noteq> ?R p" if "p < 4" for p using sep ix that unfolding shape_sep_def by blast
  have c3: "?F p j = ?c \<longleftrightarrow> p = port \<and> j = pin" if "p < 4" "j < ?N" for p j
  proof
    assume e: "?F p j = ?c"
    show "p = port \<and> j = pin"
    proof (rule ccontr)
      assume "\<not> (p = port \<and> j = pin)"
      then have "p \<noteq> port \<or> j \<noteq> pin" by simp
      then have "?F p j \<noteq> ?F port pin" using sep ix that unfolding shape_sep_def by blast
      with e show False by simp
    qed
  qed simp
  show "live s' = live s" "brk s' = brk s" "plan s' = plan s" unfolding s' by simp_all
  show "ram s' h = ram s h" "ram s' ?P = ram s ?P" unfolding s' using c1 by simp_all
  show "ram s' (?R p) = ram s (?R p)" if "p < 4" for p unfolding s' using c2[OF that] by simp
  show "ram s' (?F p j) f = (if p = port \<and> j = pin \<and> f = func then v else ram s (?F p j) f)"
    if "p < 4" "j < ?N" for p j f
    unfolding s' using c3[OF that] by auto
qed

lemma write_cell_live_matrix:
  assumes lm: "live_matrix s h" and ix: "port < 4" "pin < unat (ram s h 0)" "func < 3"
    and w: "write_cell s h port pin func v = Some s'"
  shows "live_matrix s' h"
proof -
  note f = write_cell_frame[OF lm ix w]
  have e: "ram s' h = ram s h" "ram s' (ram s h 1) = ram s (ram s h 1)" by (rule f)+
  show ?thesis
    unfolding live_matrix_def e f(1) using lm f(4) unfolding live_matrix_def shape_sep_def
    by simp
qed

lemma destroy_ports_skip:
  assumes "live s h = Some 2" "live s (ram s h 1) = Some 4" "port < 4"
    "ram s (ram s h 1) port = NULL"
  shows "destroy_ports s h port = destroy_ports s h (port + 1)"
  using assms
  by (subst destroy_ports.simps)
     (simp add: MAX_PORTS_def pins_port_def pins_def load_live)

lemma destroy_ports_pstep:
  assumes sep: "shape_psep h P R F N"
    and hd: "live s NULL = None" "live s h = Some 2" "ram s h 0 = n" "unat n = N" "ram s h 1 = P"
      "live s P = Some 4"
    and rows: "rows_phold s P R F N port" and lt: "port < 4" and nz: "R port \<noteq> NULL"
  shows "destroy_ports s h port =
     destroy_ports (s\<lparr>live := (\<lambda>a. if a = R port \<or> (\<exists>j<N. a = F port j) then None else live s a),
                      ram := (ram s)(R port := (\<lambda>i. if i < N then NULL else ram s (R port) i),
                                     P := (ram s P)(port := NULL))\<rparr>) h (port + 1)"
proof -
  let ?r = "R port"
  have base: "h \<noteq> P" using sep unfolding shape_psep_def by simp
  have "\<forall>p<4. R p \<noteq> NULL \<longrightarrow>
        R p \<noteq> h \<and> R p \<noteq> P \<and> (\<forall>p'<4. p' \<noteq> p \<longrightarrow> R p' \<noteq> R p) \<and>
        (\<forall>j<N. F p j \<noteq> NULL \<longrightarrow>
           F p j \<noteq> h \<and> F p j \<noteq> P \<and> (\<forall>p'<4. R p' \<noteq> F p j) \<and>
           (\<forall>p'<4. \<forall>j'<N. R p' \<noteq> NULL \<and> (p' \<noteq> p \<or> j' \<noteq> j) \<longrightarrow> F p' j' \<noteq> F p j))"
    using sep unfolding shape_psep_def by simp
  from this[rule_format, OF lt nz]
  have row: "?r \<noteq> h" "?r \<noteq> P"
    and cl: "\<forall>j<N. F port j \<noteq> NULL \<longrightarrow>
           F port j \<noteq> h \<and> F port j \<noteq> P \<and> (\<forall>p'<4. R p' \<noteq> F port j) \<and>
           (\<forall>p'<4. \<forall>j'<N. R p' \<noteq> NULL \<and> (p' \<noteq> port \<or> j' \<noteq> j) \<longrightarrow> F p' j' \<noteq> F port j)"
    by simp_all
  have cell: "F port j \<noteq> h \<and> F port j \<noteq> P \<and> F port j \<noteq> ?r"
    if "j < N" "F port j \<noteq> NULL" for j
    using cl[rule_format, OF that] lt by metis
  have cinj: "F port j' \<noteq> F port j" if "j < N" "j' < N" "j \<noteq> j'" "F port j \<noteq> NULL" for j j'
  proof -
    from cl[rule_format, OF that(1,4)]
    have "\<forall>p'<4. \<forall>j'<N. R p' \<noteq> NULL \<and> (p' \<noteq> port \<or> j' \<noteq> j) \<longrightarrow> F p' j' \<noteq> F port j"
      by simp
    from this[rule_format, OF lt that(2)] nz that(3) show ?thesis by simp
  qed
  note sepD = base row cell cinj
  have rw: "ram s P port = ?r" "live s ?r = Some N"
    "\<And>j. j < N \<Longrightarrow> ram s ?r j = F port j \<and> (F port j \<noteq> NULL \<longrightarrow> live s (F port j) \<noteq> None)"
    using rows lt nz unfolding rows_phold_def by auto
  let ?s1 = "s\<lparr>live := (\<lambda>a. if a \<in> ram s ?r ` {0..<unat n} then None else live s a),
             ram := (ram s)(?r := (\<lambda>i. if 0 \<le> i \<and> i < unat n then NULL else ram s ?r i))\<rparr>"
  have dp: "destroy_pins s h port 0 = Some ?s1"
  proof (rule destroy_pins_ok[where P=P and m=N])
    show "\<forall>j. 0 \<le> j \<and> j < unat n \<longrightarrow>
        ram s ?r j = NULL \<or> (live s (ram s ?r j) \<noteq> None \<and> ram s ?r j \<notin> {h, P, ?r})"
      using rw(3) sepD(4) hd(4) by auto
    show "\<forall>j j'. 0 \<le> j \<and> j < j' \<and> j' < unat n \<and> ram s ?r j \<noteq> NULL \<longrightarrow> ram s ?r j \<noteq> ram s ?r j'"
    proof (intro allI impI)
      fix j j' assume a: "0 \<le> j \<and> j < j' \<and> j' < unat n \<and> ram s ?r j \<noteq> NULL"
      then have "j < N" "j' < N" "j \<noteq> j'" "F port j \<noteq> NULL" using hd(4) rw(3)[of j] by auto
      from sepD(5)[OF this] show "ram s ?r j \<noteq> ram s ?r j'"
        using rw(3)[of j] rw(3)[of j'] \<open>j < N\<close> \<open>j' < N\<close> by auto
    qed
  qed (use hd rw sepD lt in auto)
  have img: "\<And>a. a \<in> ram s ?r ` {0..<unat n} \<longleftrightarrow> (\<exists>j<N. a = F port j)"
    using rw(3) hd(4) by (auto simp: image_iff)
  have nc': "a \<notin> ram s ?r ` {0..<unat n}" if "a = h \<or> a = P \<or> a = ?r" for a
  proof
    assume "a \<in> ram s ?r ` {0..<unat n}"
    then obtain j where j: "j < N" "a = F port j" unfolding img by auto
    have "a \<noteq> NULL" using that hd(1,2,6) rw(2) by auto
    with sepD(4)[OF j(1)] j(2) that show False by auto
  qed
  have nc: "h \<notin> ram s ?r ` {0..<unat n}" "P \<notin> ram s ?r ` {0..<unat n}" "?r \<notin> ram s ?r ` {0..<unat n}"
    using nc' by simp_all
  have l1: "live ?s1 h = Some 2" "live ?s1 P = Some 4" "live ?s1 ?r = Some N"
    "ram ?s1 h 1 = P" "ram ?s1 P port = ?r"
    using nc hd rw sepD by simp_all
  let ?s2 = "?s1\<lparr>live := (live ?s1)(?r := None)\<rparr>"
  have l2: "live ?s2 h = Some 2" "live ?s2 P = Some 4" "ram ?s2 h 1 = P" using l1 sepD by simp_all
  have "destroy_ports s h port =
      destroy_ports (?s2\<lparr>ram := (ram ?s2)(P := (ram ?s2 P)(port := NULL))\<rparr>) h (port + 1)"
    using lt hd rw(1,2) sepD(1,2,3) nz dp l1 l2
    by (subst destroy_ports.simps)
       (simp add: MAX_PORTS_def pins_port_def pins_def load_live free_live store_live)
  moreover have "?s2\<lparr>ram := (ram ?s2)(P := (ram ?s2 P)(port := NULL))\<rparr> =
     s\<lparr>live := (\<lambda>a. if a = R port \<or> (\<exists>j<N. a = F port j) then None else live s a),
                      ram := (ram s)(R port := (\<lambda>i. if i < N then NULL else ram s (R port) i),
                                     P := (ram s P)(port := NULL))\<rparr>"
  proof -
    have "(\<lambda>a. if a \<in> ram s ?r ` {0..<unat n} then None else live s a)(?r := None) =
        (\<lambda>a. if a = R port \<or> (\<exists>j<N. a = F port j) then None else live s a)"
      unfolding img by (rule ext) auto
    then show ?thesis using hd(4) sepD(3) by simp
  qed
  ultimately show ?thesis by simp
qed

lemma shape_psepD:
  assumes "shape_psep h P R F N"
  shows "h \<noteq> NULL" "P \<noteq> NULL" "h \<noteq> P"
    and "\<And>p. p < 4 \<Longrightarrow> R p \<noteq> NULL \<Longrightarrow> R p \<noteq> h \<and> R p \<noteq> P"
    and "\<And>p p'. p < 4 \<Longrightarrow> R p \<noteq> NULL \<Longrightarrow> p' < 4 \<Longrightarrow> p' \<noteq> p \<Longrightarrow> R p' \<noteq> R p"
    and "\<And>p j. p < 4 \<Longrightarrow> R p \<noteq> NULL \<Longrightarrow> j < N \<Longrightarrow> F p j \<noteq> NULL \<Longrightarrow>
           F p j \<noteq> h \<and> F p j \<noteq> P"
    and "\<And>p j p'. p < 4 \<Longrightarrow> R p \<noteq> NULL \<Longrightarrow> j < N \<Longrightarrow> F p j \<noteq> NULL \<Longrightarrow> p' < 4 \<Longrightarrow>
           R p' \<noteq> F p j"
    and "\<And>p j p' j'. p < 4 \<Longrightarrow> R p \<noteq> NULL \<Longrightarrow> j < N \<Longrightarrow> F p j \<noteq> NULL \<Longrightarrow> p' < 4 \<Longrightarrow>
           j' < N \<Longrightarrow> R p' \<noteq> NULL \<Longrightarrow> p' \<noteq> p \<or> j' \<noteq> j \<Longrightarrow> F p' j' \<noteq> F p j"
proof -
  show "h \<noteq> NULL" "P \<noteq> NULL" "h \<noteq> P" using assms unfolding shape_psep_def by simp_all
  have all: "\<forall>p<4. R p \<noteq> NULL \<longrightarrow>
        R p \<noteq> h \<and> R p \<noteq> P \<and> (\<forall>p'<4. p' \<noteq> p \<longrightarrow> R p' \<noteq> R p) \<and>
        (\<forall>j<N. F p j \<noteq> NULL \<longrightarrow>
           F p j \<noteq> h \<and> F p j \<noteq> P \<and> (\<forall>p'<4. R p' \<noteq> F p j) \<and>
           (\<forall>p'<4. \<forall>j'<N. R p' \<noteq> NULL \<and> (p' \<noteq> p \<or> j' \<noteq> j) \<longrightarrow> F p' j' \<noteq> F p j))"
    using assms unfolding shape_psep_def by simp
  {
    fix p assume p: "p < 4" "R p \<noteq> NULL"
    note r = all[rule_format, OF p]
    show "R p \<noteq> h \<and> R p \<noteq> P" using r by simp
    show "R p' \<noteq> R p" if "p' < 4" "p' \<noteq> p" for p'
      using r[THEN conjunct2, THEN conjunct2, THEN conjunct1, rule_format, OF that] .
    note c = r[THEN conjunct2, THEN conjunct2, THEN conjunct2]
    fix j assume j: "j < N" "F p j \<noteq> NULL"
    note d = c[rule_format, OF j]
    show "F p j \<noteq> h \<and> F p j \<noteq> P" using d by simp
    show "R p' \<noteq> F p j" if "p' < 4" for p'
      using d[THEN conjunct2, THEN conjunct2, THEN conjunct1, rule_format, OF that] .
    show "F p' j' \<noteq> F p j" if "p' < 4" "j' < N" "R p' \<noteq> NULL" "p' \<noteq> p \<or> j' \<noteq> j" for p' j'
      using d[THEN conjunct2, THEN conjunct2, THEN conjunct2, rule_format, OF that(1,2)] that(3,4)
      by simp
  }
qed

lemma destroy_ports_pok:
  assumes sep: "shape_psep h P R F N"
    and hd: "live s NULL = None" "live s h = Some 2" "ram s h 0 = n" "unat n = N" "ram s h 1 = P"
      "live s P = Some 4"
    and rows: "rows_phold s P R F N port"
  shows "\<exists>s'. destroy_ports s h port = Some s' \<and>
     live s' = (\<lambda>a. if \<exists>p. port \<le> p \<and> p < 4 \<and> R p \<noteq> NULL \<and> (a = R p \<or> (\<exists>j<N. a = F p j))
                     then None else live s a) \<and>
     ram s' h = ram s h \<and> brk s' = brk s \<and> plan s' = plan s"
  using hd rows
proof (induction "4 - port" arbitrary: s port)
  case 0
  then have "destroy_ports s h port = Some s" by (simp add: destroy_ports_exit)
  moreover have "(\<lambda>a. if \<exists>p. port \<le> p \<and> p < 4 \<and> R p \<noteq> NULL \<and> (a = R p \<or> (\<exists>j<N. a = F p j))
                     then None else live s a) = live s"
    using 0 by (auto simp: fun_eq_iff)
  ultimately show ?case by simp
next
  case (Suc k)
  then have lt: "port < 4" by simp
  note sd = shape_psepD[OF sep]
  have range: "(\<exists>p. port \<le> p \<and> p < 4 \<and> Q p) \<longleftrightarrow> Q port \<or> (\<exists>p. port + 1 \<le> p \<and> p < 4 \<and> Q p)" for Q
    using lt by (metis Suc_eq_plus1 Suc_leI le_neq_implies_less order_refl Suc_leD)
  have Pp: "ram s P port = R port" using Suc.prems(7) lt unfolding rows_phold_def by simp
  show ?case
  proof (cases "R port = NULL")
    case True
    have step: "destroy_ports s h port = destroy_ports s h (port + 1)"
      by (rule destroy_ports_skip) (use Suc.prems lt True Pp in simp_all)
    have rows1: "rows_phold s P R F N (port + 1)"
      using Suc.prems(7) unfolding rows_phold_def by simp
    have "\<exists>s'. destroy_ports s h (port + 1) = Some s' \<and>
       live s' = (\<lambda>a. if \<exists>p. port + 1 \<le> p \<and> p < 4 \<and> R p \<noteq> NULL \<and> (a = R p \<or> (\<exists>j<N. a = F p j))
                     then None else live s a) \<and>
       ram s' h = ram s h \<and> brk s' = brk s \<and> plan s' = plan s"
    proof (rule Suc.hyps(1)[OF _ Suc.prems(1,2,3,4,5,6) rows1])
      show "k = 4 - (port + 1)" using Suc.hyps(2) by simp
    qed
    then obtain s' where d: "destroy_ports s h (port + 1) = Some s'"
      and lv: "live s' = (\<lambda>a. if \<exists>p. port + 1 \<le> p \<and> p < 4 \<and> R p \<noteq> NULL \<and> (a = R p \<or> (\<exists>j<N. a = F p j))
                     then None else live s a)"
      and rest: "ram s' h = ram s h" "brk s' = brk s" "plan s' = plan s" by blast
    have "live s' = (\<lambda>a. if \<exists>p. port \<le> p \<and> p < 4 \<and> R p \<noteq> NULL \<and> (a = R p \<or> (\<exists>j<N. a = F p j))
                     then None else live s a)"
    proof
      fix a
      have r: "(\<exists>p. port \<le> p \<and> p < 4 \<and> R p \<noteq> NULL \<and> (a = R p \<or> (\<exists>j<N. a = F p j))) \<longleftrightarrow>
         (\<exists>p. port + 1 \<le> p \<and> p < 4 \<and> R p \<noteq> NULL \<and> (a = R p \<or> (\<exists>j<N. a = F p j)))"
        unfolding range[of "\<lambda>p. R p \<noteq> NULL \<and> (a = R p \<or> (\<exists>j<N. a = F p j))"] using True by simp
      show "live s' a = (if \<exists>p. port \<le> p \<and> p < 4 \<and> R p \<noteq> NULL \<and> (a = R p \<or> (\<exists>j<N. a = F p j))
                     then None else live s a)"
        unfolding r by (subst lv) (rule refl)
    qed
    then show ?thesis using step d rest by simp
  next
    case False
    let ?s1 = "s\<lparr>live := (\<lambda>a. if a = R port \<or> (\<exists>j<N. a = F port j) then None else live s a),
                      ram := (ram s)(R port := (\<lambda>i. if i < N then NULL else ram s (R port) i),
                                     P := (ram s P)(port := NULL))\<rparr>"
    have step: "destroy_ports s h port = destroy_ports ?s1 h (port + 1)"
      by (rule destroy_ports_pstep[OF sep Suc.prems lt False])
    have rP: "R port \<noteq> h" "R port \<noteq> P" using sd(4)[OF lt False] by simp_all
    have cellhP: "F port j \<noteq> h \<and> F port j \<noteq> P" if "j < N" for j
    proof (cases "F port j = NULL")
      case True then show ?thesis using sd(1,2) by simp
    next
      case False then show ?thesis using sd(6)[OF lt \<open>R port \<noteq> NULL\<close> that] by simp
    qed
    have hnot: "\<not> (h = R port \<or> (\<exists>j<N. h = F port j))" "\<not> (P = R port \<or> (\<exists>j<N. P = F port j))"
      using rP cellhP by auto
    have rows1: "rows_phold ?s1 P R F N (port + 1)"
      unfolding rows_phold_def
    proof (intro allI impI conjI)
      fix p :: nat assume p4: "p < 4" and pp: "port + 1 \<le> p"
      then have p: "port + 1 \<le> p \<and> p < 4" by simp
      then have pl: "p < 4" "p \<noteq> port" by simp_all
      have rp: "ram s P p = R p"
        "R p \<noteq> NULL \<Longrightarrow> live s (R p) = Some N"
        "\<And>j. R p \<noteq> NULL \<Longrightarrow> j < N \<Longrightarrow> ram s (R p) j = F p j \<and> (F p j \<noteq> NULL \<longrightarrow> live s (F p j) \<noteq> None)"
        using Suc.prems(7) p unfolding rows_phold_def by auto
      show "ram ?s1 P p = R p" using rp(1) pl by simp
      assume nz: "R p \<noteq> NULL"
      have d1: "R p \<noteq> R port" using sd(5)[OF lt False pl] .
      have d2: "R p \<noteq> P" using sd(4)[OF pl(1) nz] by simp
      have d3: "R p \<noteq> F port j" if "j < N" for j
      proof (cases "F port j = NULL")
        case True then show ?thesis using nz by simp
      next
        case False then show ?thesis using sd(7)[OF lt \<open>R port \<noteq> NULL\<close> that False pl(1)] by simp
      qed
      show "live ?s1 (R p) = Some N" using rp(2)[OF nz] d1 d3 by auto
      fix j assume j: "j < N"
      show "ram ?s1 (R p) j = F p j" using rp(3)[OF nz j] d1 d2 by simp
      assume fz: "F p j \<noteq> NULL"
      have e1: "F p j \<noteq> R port" using sd(7)[OF pl(1) nz j fz lt] by simp
      have e2: "F p j \<noteq> F port j'" if "j' < N" for j'
      proof (cases "F port j' = NULL")
        case True then show ?thesis using fz by simp
      next
        case False
        from sd(8)[OF lt \<open>R port \<noteq> NULL\<close> that False pl(1) j nz] pl(2) show ?thesis by simp
      qed
      show "live ?s1 (F p j) \<noteq> None" using rp(3)[OF nz j] fz e1 e2 by auto
    qed
    have "\<exists>s'. destroy_ports ?s1 h (port + 1) = Some s' \<and>
       live s' = (\<lambda>a. if \<exists>p. port + 1 \<le> p \<and> p < 4 \<and> R p \<noteq> NULL \<and> (a = R p \<or> (\<exists>j<N. a = F p j))
                     then None else live ?s1 a) \<and>
       ram s' h = ram ?s1 h \<and> brk s' = brk ?s1 \<and> plan s' = plan ?s1"
    proof (rule Suc.hyps(1)[OF _ _ _ _ _ _ _ rows1])
      show "k = 4 - (port + 1)" using Suc.hyps(2) by simp
      show "live ?s1 h = Some 2" "live ?s1 P = Some 4" using hnot Suc.prems by simp_all
      show "ram ?s1 h 0 = n" "ram ?s1 h 1 = P" using rP sd(3) Suc.prems by simp_all
    qed (use Suc.prems in simp_all)
    then obtain s' where d: "destroy_ports ?s1 h (port + 1) = Some s'"
      and lv: "live s' = (\<lambda>a. if \<exists>p. port + 1 \<le> p \<and> p < 4 \<and> R p \<noteq> NULL \<and> (a = R p \<or> (\<exists>j<N. a = F p j))
                     then None else live ?s1 a)"
      and rest: "ram s' h = ram ?s1 h" "brk s' = brk ?s1" "plan s' = plan ?s1" by blast
    have "live s' = (\<lambda>a. if \<exists>p. port \<le> p \<and> p < 4 \<and> R p \<noteq> NULL \<and> (a = R p \<or> (\<exists>j<N. a = F p j))
                     then None else live s a)"
    proof
      fix a
      let ?up = "\<exists>p. port + 1 \<le> p \<and> p < 4 \<and> R p \<noteq> NULL \<and> (a = R p \<or> (\<exists>j<N. a = F p j))"
      let ?here = "a = R port \<or> (\<exists>j<N. a = F port j)"
      have r: "(\<exists>p. port \<le> p \<and> p < 4 \<and> R p \<noteq> NULL \<and> (a = R p \<or> (\<exists>j<N. a = F p j))) \<longleftrightarrow> ?here \<or> ?up"
        unfolding range[of "\<lambda>p. R p \<noteq> NULL \<and> (a = R p \<or> (\<exists>j<N. a = F p j))"] using False by simp
      have e1: "live s' a = (if ?up then None else live ?s1 a)"
        by (subst lv) (rule refl)
      have e2: "live ?s1 a = (if ?here then None else live s a)"
        by (simp del: ex_simps all_simps)
      have e3: "live s' a = (if ?here \<or> ?up then None else live s a)"
        unfolding e1 e2 by argo
      show "live s' a = (if \<exists>p. port \<le> p \<and> p < 4 \<and> R p \<noteq> NULL \<and> (a = R p \<or> (\<exists>j<N. a = F p j))
                     then None else live s a)"
        unfolding r by (rule e3)
    qed
    moreover have "ram s' h = ram s h" using rest(1) rP sd(3) by simp
    ultimately show ?thesis using step d rest by simp
  qed
qed

lemma destroy_partial_ok:
  assumes pm: "partial_matrix s h"
  shows "\<exists>s'. PINS_destroyInstance s h = Some (SUCCESS, s') \<and>
     live s' = (\<lambda>a. if a \<in> pblocks s h then None else live s a) \<and>
     brk s' = brk s \<and> plan s' = plan s"
proof -
  let ?P = "ram s h 1"
  let ?N = "unat (ram s h 0)"
  let ?R = "ram s ?P"
  let ?F = "\<lambda>p. ram s (?R p)"
  have b: "live s NULL = None" "h \<noteq> NULL" "live s h = Some 2"
    using pm unfolding partial_matrix_def by simp_all
  show ?thesis
  proof (cases "?P = NULL")
    case True
    have body: "destroy_body s h = Some (SUCCESS, s\<lparr>live := (live s)(h := None)\<rparr>)"
      using b True by (simp add: destroy_body_def pins_def load_live free_live)
    have "pblocks s h = {h}" using True by (auto simp: pblocks_def)
    then have "(live s)(h := None) = (\<lambda>a. if a \<in> pblocks s h then None else live s a)"
      by (auto simp: fun_eq_iff)
    then show ?thesis using body unfolding PINS_destroyInstance_def by simp
  next
    case False
    then have lP: "live s ?P = Some 4" and sep: "shape_psep h ?P ?R ?F ?N"
      and rows: "rows_phold s ?P ?R ?F ?N 0"
      using pm unfolding partial_matrix_def by simp_all
    note sd = shape_psepD[OF sep]
    from destroy_ports_pok[OF sep b(1) b(3) refl refl refl lP rows]
    obtain s1 where dp: "destroy_ports s h 0 = Some s1"
      and lv: "live s1 = (\<lambda>a. if \<exists>p. 0 \<le> p \<and> p < 4 \<and> ?R p \<noteq> NULL \<and> (a = ?R p \<or> (\<exists>j<?N. a = ?F p j))
                            then None else live s a)"
      and rest: "ram s1 h = ram s h" "brk s1 = brk s" "plan s1 = plan s" by blast
    have notin: "\<not> (\<exists>p. 0 \<le> p \<and> p < 4 \<and> ?R p \<noteq> NULL \<and> (a = ?R p \<or> (\<exists>j<?N. a = ?F p j)))"
      if a: "a = h \<or> a = ?P" for a
    proof
      assume "\<exists>p. 0 \<le> p \<and> p < 4 \<and> ?R p \<noteq> NULL \<and> (a = ?R p \<or> (\<exists>j<?N. a = ?F p j))"
      then obtain p where p: "p < 4" "?R p \<noteq> NULL" and d: "a = ?R p \<or> (\<exists>j<?N. a = ?F p j)" by blast
      from d show False
      proof
        assume "a = ?R p" then show False using sd(4)[OF p] a by auto
      next
        assume "\<exists>j<?N. a = ?F p j"
        then obtain j where j: "j < ?N" "a = ?F p j" by blast
        have "a \<noteq> NULL" using a b(2) False by auto
        then show False using sd(6)[OF p j(1)] j(2) a by auto
      qed
    qed
    have l1: "live s1 h = Some 2" "live s1 ?P = Some 4" "ram s1 h 1 = ?P"
      using notin[of h] notin[of ?P] b(3) lP rest(1) unfolding lv by simp_all
    let ?s2 = "s1\<lparr>live := (live s1)(?P := None)\<rparr>"
    let ?s3 = "?s2\<lparr>ram := (ram ?s2)(h := (ram ?s2 h)(1 := NULL))\<rparr>"
    let ?s4 = "?s3\<lparr>live := (live ?s3)(h := None)\<rparr>"
    have l2: "live ?s2 h = Some 2" using l1 sd(3) by simp
    have l3: "live ?s3 h = Some 2" using l2 by simp
    have body: "destroy_body s h = Some (SUCCESS, ?s4)"
      using b False lP dp l1 l2 l3
      by (simp add: destroy_body_def pins_def load_live free_live store_live)
    have "live ?s4 = (\<lambda>a. if a \<in> pblocks s h then None else live s a)"
    proof
      fix a
      let ?rows = "\<exists>p. 0 \<le> p \<and> p < 4 \<and> ?R p \<noteq> NULL \<and> (a = ?R p \<or> (\<exists>j<?N. a = ?F p j))"
      have m: "a \<in> pblocks s h \<longleftrightarrow> a = h \<or> (a \<noteq> NULL \<and> (a = ?P \<or> ?rows))"
        unfolding pblocks_def using False by auto
      have e1: "live ?s4 a = (if a = h \<or> a = ?P then None else live s1 a)" by simp
      have e2: "live s1 a = (if ?rows then None else live s a)"
        by (subst lv) (rule refl)
      show "live ?s4 a = (if a \<in> pblocks s h then None else live s a)"
      proof (cases "a = NULL")
        case True
        then show ?thesis unfolding e1 e2 using b(1) by simp
      next
        case False
        then show ?thesis unfolding m e1 e2 by argo
      qed
    qed
    moreover have "brk ?s4 = brk s" "plan ?s4 = plan s" using rest by simp_all
    ultimately show ?thesis using body unfolding PINS_destroyInstance_def by simp
  qed
qed

lemma live_matrix_partial:
  assumes lm: "live_matrix s h"
  shows "partial_matrix s h" "pblocks s h = blocks s h"
proof -
  note d = live_matrixD[OF lm]
  let ?P = "ram s h 1"
  let ?N = "unat (ram s h 0)"
  let ?R = "ram s ?P"
  let ?F = "\<lambda>p. ram s (?R p)"
  have nz: "h \<noteq> NULL" "?P \<noteq> NULL" "h \<noteq> ?P" using d(6) unfolding shape_sep_def by simp_all
  have rows: "\<forall>p<4. ?R p \<noteq> NULL \<and> ?R p \<noteq> h \<and> ?R p \<noteq> ?P \<and>
        (\<forall>j<?N. ?F p j \<noteq> NULL \<and> ?F p j \<noteq> h \<and> ?F p j \<noteq> ?P)"
    and pair: "\<forall>p<4. \<forall>p'<4. (p \<noteq> p' \<longrightarrow> ?R p \<noteq> ?R p') \<and>
        (\<forall>j<?N. ?F p j \<noteq> ?R p' \<and> (\<forall>j'<?N. (p \<noteq> p' \<or> j \<noteq> j') \<longrightarrow> ?F p j \<noteq> ?F p' j'))"
    using d(6) unfolding shape_sep_def by simp_all
  have Rnz: "?R p \<noteq> NULL" if "p < 4" for p using rows that by simp
  have Fnz: "?F p j \<noteq> NULL" if "p < 4" "j < ?N" for p j using rows that by simp
  have psep: "shape_psep h ?P ?R ?F ?N"
    unfolding shape_psep_def
  proof (intro conjI allI impI)
    fix p :: nat assume p: "p < 4"
    show "?R p \<noteq> h" "?R p \<noteq> ?P" using rows p by simp_all
    show "?R p' \<noteq> ?R p" if "p' < 4" "p' \<noteq> p" for p'
      using pair[rule_format, OF that(1) p] that(2) by simp
    fix j :: nat assume j: "j < ?N"
    show "?F p j \<noteq> h" "?F p j \<noteq> ?P" using rows p j by simp_all
    show "?R p' \<noteq> ?F p j" if "p' < 4" for p'
      using pair[rule_format, OF p that] j by (metis)
    show "?F p' j' \<noteq> ?F p j" if "p' < 4" "j' < ?N" "?R p' \<noteq> NULL \<and> (p' \<noteq> p \<or> j' \<noteq> j)" for p' j'
      using pair[rule_format, OF that(1) p, THEN conjunct2, rule_format, OF that(2),
          THEN conjunct2, rule_format, OF j] that(3) by simp
  qed (use nz in simp_all)
  have ph: "rows_phold s ?P ?R ?F ?N 0"
    unfolding rows_phold_def using d(4,5) by simp
  show "partial_matrix s h"
    unfolding partial_matrix_def using d(1,2,3) nz psep ph by simp
  show "pblocks s h = blocks s h"
    unfolding pblocks_def blocks_def using nz Rnz Fnz by auto
qed

section \<open>With a granting allocator \<^verbatim>\<open>PINS_createInstance\<close> returns a handle\<close>

lemma unat_succ: "unat (b::word32) + 1 < 2 ^ 32 \<Longrightarrow> unat (b + 1) = unat b + 1"
  by (simp add: unat_word_ariths)

lemma create_funcs_grant:
  assumes pre: "live s h = Some 2" "ram s h 1 = P" "live s P = Some 4" "pin < 4"
      "ram s P pin = r" "live s r = Some m" "h \<noteq> P" "r \<noteq> h" "r \<noteq> P"
      "func < unat (ram s h 0)" "func < m"
    and al: "brk s \<noteq> NULL" "plan s = True # pl" "live s (brk s) = None"
  shows "create_funcs s h pin func =
     create_funcs (s\<lparr>live := (live s)(brk s \<mapsto> 3), brk := brk s + 1, plan := pl,
                     ram := (ram s)(r := (ram s r)(func := brk s))\<rparr>) h pin (func + 1)"
proof -
  have ne: "brk s \<noteq> h" "brk s \<noteq> P" "brk s \<noteq> r" using al(3) pre by auto
  have m: "malloc s (of_nat MAX_FUNC * 4) =
     (brk s, s\<lparr>live := (live s)(brk s \<mapsto> 3), brk := brk s + 1, plan := pl\<rparr>)"
    using al by (simp add: malloc_def MAX_FUNC_def)
  show ?thesis
    using pre ne al(1)
    by (subst create_funcs.simps)
       (simp add: m num_of_pins_def pins_port_pin_def pins_port_def pins_def load_live store_live)
qed

lemma create_funcs_run:
  assumes "heap_ok s" "live s h = Some 2" "ram s h 0 = n" "ram s h 1 = P" "live s P = Some 4"
    "pin < 4" "ram s P pin = r" "live s r = Some m" "h \<noteq> P" "r \<noteq> h" "r \<noteq> P"
    "unat n \<le> m" "func \<le> unat n"
    "plan s = replicate (unat n - func) True @ pl"
    "brk s \<noteq> NULL" "unat (brk s) + (unat n - func) < 2 ^ 32"
  shows "\<exists>s'. create_funcs s h pin func = Some (h, s') \<and> plan s' = pl \<and>
     unat (brk s') = unat (brk s) + (unat n - func)"
  using assms
proof (induction "unat n - func" arbitrary: s func)
  case 0
  then have "create_funcs s h pin func = Some (h, s)" by (simp add: create_funcs_exit)
  with 0 show ?case by simp
next
  case (Suc k)
  then have lt: "func < unat n" by simp
  have k: "unat n - func = Suc k" using Suc.hyps(2) by simp
  let ?s2 = "s\<lparr>live := (live s)(brk s \<mapsto> 3), brk := brk s + 1, plan := replicate k True @ pl,
                     ram := (ram s)(r := (ram s r)(func := brk s))\<rparr>"
  have fresh: "live s (brk s) = None" using Suc.prems by (simp add: heap_ok_fresh)
  then have ne: "brk s \<noteq> h" "brk s \<noteq> P" "brk s \<noteq> r" using Suc.prems by auto
  have pl: "plan s = True # (replicate k True @ pl)" using Suc.prems(14) k by simp
  have step: "create_funcs s h pin func = create_funcs ?s2 h pin (func + 1)"
    by (rule create_funcs_grant[OF _ _ _ _ _ _ _ _ _ _ _ Suc.prems(15) pl fresh, where P=P and m=m])
       (use Suc.prems lt in auto)
  have ub: "unat (brk s + 1) = unat (brk s) + 1" using Suc.prems(16) k by (intro unat_succ) simp
  have ok2: "heap_ok ?s2" using heap_ok_grant[OF Suc.prems(1,15), where k=3 and pl="replicate k True @ pl"] by simp
  have nz2: "brk s + 1 \<noteq> NULL" using ub by (metis add_is_0 unat_0 zero_neq_one)
  have "\<exists>s'. create_funcs ?s2 h pin (func + 1) = Some (h, s') \<and> plan s' = pl \<and>
     unat (brk s') = unat (brk ?s2) + (unat n - (func + 1))"
  proof (rule Suc.hyps(1)[OF _ ok2])
    show "k = unat n - (func + 1)" using k by simp
    show "plan ?s2 = replicate (unat n - (func + 1)) True @ pl" using k by simp
    show "unat (brk ?s2) + (unat n - (func + 1)) < 2 ^ 32" using ub Suc.prems(16) k by simp
    show "brk ?s2 \<noteq> NULL" using nz2 by simp
  qed (use Suc.prems ne lt in auto)
  then show ?case using step ub k by auto
qed

lemma create_funcs_header:
  assumes "create_funcs s h pin func = Some (pm, s')" "pm \<noteq> NULL"
    "heap_ok s" "live s h = Some 2" "ram s h 0 = n" "ram s h 1 = P" "live s P = Some 4"
    "pin < 4" "ram s P pin = r" "live s r = Some m" "h \<noteq> P" "r \<noteq> h" "r \<noteq> P"
  shows "heap_ok s' \<and> live s' h = Some 2 \<and> live s' P = Some 4 \<and> ram s' h = ram s h"
proof -
  from create_funcs_ok[OF assms]
  have ok: "heap_ok s'"
    and frame: "\<And>a i. \<not> (a = r \<and> func \<le> i \<and> i < unat n) \<Longrightarrow> ram s' a i = ram s a i"
    and cells: "\<And>j. func \<le> j \<Longrightarrow> j < unat n \<Longrightarrow> live s (ram s' r j) = None"
    and lv: "live s' = (\<lambda>a. if a \<in> ram s' r ` {func..<unat n} then Some 3 else live s a)"
    by blast+
  have notcell: "a \<notin> ram s' r ` {func..<unat n}" if "live s a \<noteq> None" for a
    using cells that by force
  have "live s' h = Some 2" "live s' P = Some 4"
    using notcell[of h] notcell[of P] assms(4,7) unfolding lv by simp_all
  moreover have "ram s' h = ram s h"
  proof
    fix i show "ram s' h i = ram s h i" using frame[of h i] assms(12) by simp
  qed
  ultimately show ?thesis using ok by simp
qed

lemma row_words_exact: "unat (n::word32) < 2 ^ 30 \<Longrightarrow> unat (n * 4) div 4 = unat n"
  by (simp add: unat_word_ariths)

lemma create_ports_grant:
  assumes pre: "live s h = Some 2" "ram s h 0 = n" "ram s h 1 = P" "live s P = Some 4"
      "h \<noteq> P" "pin < 4"
    and al: "brk s \<noteq> NULL" "plan s = True # pl" "live s (brk s) = None"
  shows "create_ports s h pin =
     create_funcs (s\<lparr>live := (live s)(brk s \<mapsto> unat (n * 4) div 4), brk := brk s + 1,
                      plan := pl, ram := (ram s)(P := (ram s P)(pin := brk s))\<rparr>) h pin 0
       \<bind> (\<lambda>(pm, s3). if pm = NULL then Some (NULL, s3) else create_ports s3 h (pin + 1))"
proof -
  have ne: "brk s \<noteq> h" "brk s \<noteq> P" using al(3) pre by auto
  have m: "malloc s (n * 4) =
     (brk s, s\<lparr>live := (live s)(brk s \<mapsto> unat (n * 4) div 4), brk := brk s + 1, plan := pl\<rparr>)"
    using al by (simp add: malloc_def)
  show ?thesis
    using pre ne al(1)
    by (subst create_ports.simps)
       (simp add: m num_of_pins_def pins_port_def pins_def load_live store_live MAX_PORTS_def)
qed

lemma create_ports_run:
  assumes "heap_ok s" "live s h = Some 2" "ram s h 0 = n" "ram s h 1 = P" "live s P = Some 4"
    "h \<noteq> P" "unat n < 2 ^ 30"
    "plan s = replicate ((4 - pin) * (unat n + 1)) True @ pl"
    "brk s \<noteq> NULL" "unat (brk s) + (4 - pin) * (unat n + 1) < 2 ^ 32"
  shows "\<exists>s'. create_ports s h pin = Some (h, s') \<and> plan s' = pl \<and>
     unat (brk s') = unat (brk s) + (4 - pin) * (unat n + 1)"
  using assms
proof (induction "4 - pin" arbitrary: s pin)
  case 0
  then have "create_ports s h pin = Some (h, s)" by (simp add: create_ports_exit)
  with 0 show ?case by simp
next
  case (Suc k)
  then have lt: "pin < 4" by simp
  have k: "4 - pin = Suc k" using Suc.hyps(2) by simp
  let ?N = "unat n"
  let ?rest = "replicate (k * (?N + 1)) True @ pl"
  let ?s2 = "s\<lparr>live := (live s)(brk s \<mapsto> unat (n * 4) div 4), brk := brk s + 1,
                 plan := replicate ?N True @ ?rest,
                 ram := (ram s)(P := (ram s P)(pin := brk s))\<rparr>"
  have hnz: "h \<noteq> NULL" using Suc.prems(1,2) by (auto simp: heap_ok_def)
  have fresh: "live s (brk s) = None" using Suc.prems by (simp add: heap_ok_fresh)
  then have ne: "brk s \<noteq> h" "brk s \<noteq> P" using Suc.prems by auto
  have "Suc k * (?N + 1) = Suc (?N + k * (?N + 1))" by simp
  then have "replicate ((4 - pin) * (?N + 1)) True = True # replicate ?N True @ replicate (k * (?N + 1)) True"
    unfolding k by (simp only: replicate_Suc replicate_add)
  then have pl: "plan s = True # (replicate ?N True @ ?rest)"
    using Suc.prems(8) by simp
  have step: "create_ports s h pin =
     create_funcs ?s2 h pin 0
       \<bind> (\<lambda>(pm, s3). if pm = NULL then Some (NULL, s3) else create_ports s3 h (pin + 1))"
    by (rule create_ports_grant[OF Suc.prems(2,3,4,5,6) lt Suc.prems(9) pl fresh])
  have tot: "unat (brk s) + 1 + ?N + k * (?N + 1) < 2 ^ 32" using Suc.prems(10) k by simp
  have ub: "unat (brk s + 1) = unat (brk s) + 1" using tot by (intro unat_succ) simp
  have nz2: "brk s + 1 \<noteq> NULL" using ub by (metis add_is_0 unat_0 zero_neq_one)
  have ok2: "heap_ok ?s2"
    using heap_ok_grant[OF Suc.prems(1,9), where k="unat (n * 4) div 4" and pl="replicate ?N True @ ?rest"]
    by simp
  have sz: "unat (n * 4) div 4 = ?N" by (rule row_words_exact[OF Suc.prems(7)])
  have "\<exists>s3. create_funcs ?s2 h pin 0 = Some (h, s3) \<and> plan s3 = ?rest \<and>
     unat (brk s3) = unat (brk ?s2) + (?N - 0)"
    by (rule create_funcs_run[OF ok2, where P=P and r="brk s" and m="?N"])
       (use Suc.prems ne lt sz nz2 ub tot in auto)
  then obtain s3 where f: "create_funcs ?s2 h pin 0 = Some (h, s3)" and p3: "plan s3 = ?rest"
    and b3: "unat (brk s3) = unat (brk s) + 1 + ?N" using ub by auto
  have "heap_ok s3 \<and> live s3 h = Some 2 \<and> live s3 P = Some 4 \<and> ram s3 h = ram ?s2 h"
    by (rule create_funcs_header[OF f hnz ok2, where n=n and r="brk s" and m="?N"])
       (use Suc.prems ne lt sz in auto)
  then have i3: "heap_ok s3" "live s3 h = Some 2" "ram s3 h 0 = n" "ram s3 h 1 = P" "live s3 P = Some 4"
    using Suc.prems ne by auto
  have nz3: "brk s3 \<noteq> NULL" using b3 by (metis add_is_0 unat_0 zero_neq_one)
  have k': "4 - (pin + 1) = k" using k by simp
  have "\<exists>s'. create_ports s3 h (pin + 1) = Some (h, s') \<and> plan s' = pl \<and>
     unat (brk s') = unat (brk s3) + (4 - (pin + 1)) * (?N + 1)"
  proof (rule Suc.hyps(1)[OF _ i3 Suc.prems(6,7)])
    show "k = 4 - (pin + 1)" using k by simp
    show "plan s3 = replicate ((4 - (pin + 1)) * (?N + 1)) True @ pl" unfolding k' by (rule p3)
    show "brk s3 \<noteq> NULL" by (rule nz3)
    show "unat (brk s3) + (4 - (pin + 1)) * (?N + 1) < 2 ^ 32" unfolding k' using b3 tot by simp
  qed
  then obtain s' where c: "create_ports s3 h (pin + 1) = Some (h, s')" "plan s' = pl"
    "unat (brk s') = unat (brk s3) + (4 - (pin + 1)) * (?N + 1)" by blast
  have "create_ports s h pin = Some (h, s')" using step f c(1) hnz by simp
  moreover have "unat (brk s') = unat (brk s) + (4 - pin) * (?N + 1)"
    using c(3) b3 unfolding k k' by simp
  ultimately show ?case using c(2) by blast
qed

lemma create_run:
  assumes "heap_ok s" "unat n < 2 ^ 30"
    "plan s = replicate (2 + 4 * (unat n + 1)) True @ pl"
    "brk s \<noteq> NULL" "unat (brk s) + (2 + 4 * (unat n + 1)) < 2 ^ 32"
  shows "\<exists>h s'. PINS_createInstance s n = Some (h, s') \<and> h \<noteq> NULL \<and> plan s' = pl"
proof -
  let ?N = "unat n"
  let ?rest = "replicate (4 * (?N + 1)) True @ pl"
  have "2 + 4 * (?N + 1) = Suc (Suc (4 * (?N + 1)))" by simp
  then have "replicate (2 + 4 * (?N + 1)) True = True # True # replicate (4 * (?N + 1)) True"
    by (simp only: replicate_Suc)
  then have pl: "plan s = True # True # ?rest"
    using assms(3) by simp
  let ?h = "brk s"
  let ?P = "brk s + 1"
  have ub: "unat ?P = unat ?h + 1" using assms(5) by (intro unat_succ) simp
  have nzP: "?P \<noteq> NULL" using ub by (metis add_is_0 unat_0 zero_neq_one)
  have ub2: "unat (?P + 1) = unat ?h + 2" using assms(5) ub unat_succ[of ?P] by simp
  have nz2: "?P + 1 \<noteq> NULL" using ub2 by (metis add_is_0 unat_0 zero_neq_numeral)
  have hP: "?h \<noteq> ?P" using ub by auto
  define s1 where "s1 = s\<lparr>live := (live s)(?h \<mapsto> unat (8::word32) div 4), brk := ?P,
      plan := True # ?rest\<rparr>"
  define s2 where "s2 = s1\<lparr>ram := (ram s1)(?h := (ram s1 ?h)(0 := n))\<rparr>"
  define s3 where "s3 = s2\<lparr>live := (live s2)(brk s2 \<mapsto> unat (of_nat MAX_PORTS * 4 :: word32) div 4),
      brk := brk s2 + 1, plan := ?rest\<rparr>"
  define s4 where "s4 = s3\<lparr>ram := (ram s3)(?h := (ram s3 ?h)(1 := ?P))\<rparr>"
  have ok1: "heap_ok s1" unfolding s1_def by (rule heap_ok_grant[OF assms(1,4)])
  have ok2: "heap_ok s2" unfolding s2_def using ok1 by (simp only: heap_ok_ram)
  have b2: "brk s2 = ?P" "plan s2 = True # ?rest" "live s2 ?h = Some 2"
    by (simp_all add: s2_def s1_def)
  have ok3: "heap_ok s3" unfolding s3_def by (rule heap_ok_grant[OF ok2]) (simp add: b2 nzP)
  have ok4: "heap_ok s4" unfolding s4_def using ok3 by (simp only: heap_ok_ram)
  have m1: "malloc s 8 = (?h, s1)" using assms(4) pl by (simp add: malloc_def s1_def)
  have st1: "store s1 ?h 0 n = Some s2" by (simp add: store_def s2_def s1_def)
  have m2: "malloc s2 (of_nat MAX_PORTS * 4) = (?P, s3)"
    using nzP b2(1,2) by (simp add: malloc_def s3_def)
  have l3: "live s3 ?h = Some 2" "live s3 ?P = Some 4" "ram s3 ?h 0 = n"
    using hP b2 by (simp_all add: s3_def s2_def s1_def MAX_PORTS_def)
  have st2: "store s3 ?h (Suc 0) ?P = Some s4" using l3(1) by (simp add: store_def s4_def)
  have l4: "live s4 ?h = Some 2" "live s4 ?P = Some 4" "ram s4 ?h 0 = n" "ram s4 ?h 1 = ?P"
    "brk s4 = ?P + 1" "plan s4 = ?rest"
    using l3 hP b2 by (simp_all add: s4_def s3_def)
  have ld: "pins s4 ?h = Some ?P" using l4 by (simp add: pins_def load_live)
  have unf: "PINS_createInstance s n = create_ports s4 ?h 0"
    using assms(4) nzP by (simp add: PINS_createInstance_def m1 st1 m2 st2 ld)
  have "\<exists>s'. create_ports s4 ?h 0 = Some (?h, s') \<and> plan s' = pl \<and>
     unat (brk s') = unat (brk s4) + (4 - 0) * (?N + 1)"
    by (rule create_ports_run[OF ok4, where P="?P"])
       (use assms hP ub ub2 nz2 l4 in simp_all)
  then show ?thesis using unf assms(4) by auto
qed

section \<open>The writes of \<^verbatim>\<open>main\<close>\<close>

lemma pins_port_pin_ok:
  assumes lm: "live_matrix s h" and ix: "port < 4" "pin < unat (ram s h 0)"
  shows "pins_port_pin s h port pin = Some (ram s (ram s (ram s h 1) port) pin)"
  using live_matrixD(2,3)[OF lm] live_matrixD(4)[OF lm ix(1)] ix
  by (simp add: pins_port_pin_def pins_port_def pins_def load_live)

lemma write_cell_rel:
  assumes lm: "live_matrix t h"
    and same: "ram t h = ram s h" "ram t (ram s h 1) = ram s (ram s h 1)"
      "\<And>p. p < 4 \<Longrightarrow> ram t (ram s (ram s h 1) p) = ram s (ram s (ram s h 1) p)"
    and ix: "port < 4" "pin < unat (ram s h 0)" "func < 3"
  shows "\<exists>t'. write_cell t h port pin func v = Some t' \<and> live_matrix t' h \<and>
     ram t' h = ram s h \<and> ram t' (ram s h 1) = ram s (ram s h 1) \<and>
     (\<forall>p<4. ram t' (ram s (ram s h 1) p) = ram s (ram s (ram s h 1) p)) \<and>
     (\<forall>p<4. \<forall>j<unat (ram s h 0). \<forall>f.
        ram t' (ram s (ram s (ram s h 1) p) j) f =
          (if p = port \<and> j = pin \<and> f = func then v else ram t (ram s (ram s (ram s h 1) p) j) f))"
proof -
  have e: "ram t h 0 = ram s h 0" "ram t h 1 = ram s h 1" using same(1) by simp_all
  have ix': "port < 4" "pin < unat (ram t h 0)" "func < 3" using ix e by simp_all
  obtain t' where w: "write_cell t h port pin func v = Some t'"
    using write_cell_ok[OF lm ix'] by blast
  note f = write_cell_frame[OF lm ix' w]
  have lm': "live_matrix t' h" by (rule write_cell_live_matrix[OF lm ix' w])
  have a: "ram t' h = ram s h" using f(2) same(1) by simp
  have b: "ram t' (ram s h 1) = ram s (ram s h 1)" using f(3) e same(2) by simp
  have c: "ram t' (ram s (ram s h 1) p) = ram s (ram s (ram s h 1) p)" if "p < 4" for p
    using f(4)[OF that] e same(2) same(3)[OF that] by simp
  have d: "ram t' (ram s (ram s (ram s h 1) p) j) f =
          (if p = port \<and> j = pin \<and> f = func then v else ram t (ram s (ram s (ram s h 1) p) j) f)"
    if "p < 4" "j < unat (ram s h 0)" for p j f
    using f(5)[OF that(1), of j f] that(2) e same(2) same(3)[OF that(1)] by simp
  show ?thesis using w lm' a b c d by blast
qed

lemma main_writes_ok:
  assumes lm: "live_matrix s h" and n: "5 < unat (ram s h 0)"
  shows "\<exists>t. main_writes s h = Some t \<and> live_matrix t h \<and> ram t h = ram s h \<and>
     ram t (ram s h 1) = ram s (ram s h 1) \<and>
     (\<forall>p<4. ram t (ram s (ram s h 1) p) = ram s (ram s (ram s h 1) p)) \<and>
     (\<forall>p<4. \<forall>j<unat (ram s h 0). \<forall>f.
        ram t (ram s (ram s (ram s h 1) p) j) f =
          (if (p, j, f) \<in> {(GPIO_A, 0, GPIO_OUT), (GPIO_B, 2, GPIO_ALT), (GPIO_C, 5, GPIO_IN)}
           then GPIO_ON else ram s (ram s (ram s (ram s h 1) p) j) f))"
proof -
  let ?R = "\<lambda>p. ram s (ram s h 1) p"
  let ?F = "\<lambda>p j. ram s (?R p) j"
  from write_cell_rel[OF lm refl refl refl, of GPIO_A 0 GPIO_OUT GPIO_ON] n
  obtain t1 where w1: "write_cell s h GPIO_A 0 GPIO_OUT GPIO_ON = Some t1" and l1: "live_matrix t1 h"
    and s1: "ram t1 h = ram s h" "ram t1 (ram s h 1) = ram s (ram s h 1)"
      "\<And>p. p < 4 \<Longrightarrow> ram t1 (?R p) = ram s (?R p)"
    and c1: "\<And>p j f. p < 4 \<Longrightarrow> j < unat (ram s h 0) \<Longrightarrow> ram t1 (?F p j) f =
          (if p = GPIO_A \<and> j = 0 \<and> f = GPIO_OUT then GPIO_ON else ram s (?F p j) f)"
    by (auto simp: GPIO_A_def GPIO_OUT_def)
  from write_cell_rel[OF l1 s1, of GPIO_B 2 GPIO_ALT GPIO_ON] n
  obtain t2 where w2: "write_cell t1 h GPIO_B 2 GPIO_ALT GPIO_ON = Some t2" and l2: "live_matrix t2 h"
    and s2: "ram t2 h = ram s h" "ram t2 (ram s h 1) = ram s (ram s h 1)"
      "\<And>p. p < 4 \<Longrightarrow> ram t2 (?R p) = ram s (?R p)"
    and c2: "\<And>p j f. p < 4 \<Longrightarrow> j < unat (ram s h 0) \<Longrightarrow> ram t2 (?F p j) f =
          (if p = GPIO_B \<and> j = 2 \<and> f = GPIO_ALT then GPIO_ON else ram t1 (?F p j) f)"
    by (auto simp: GPIO_B_def GPIO_ALT_def)
  from write_cell_rel[OF l2 s2, of GPIO_C 5 GPIO_IN GPIO_ON] n
  obtain t3 where w3: "write_cell t2 h GPIO_C 5 GPIO_IN GPIO_ON = Some t3" and l3: "live_matrix t3 h"
    and s3: "ram t3 h = ram s h" "ram t3 (ram s h 1) = ram s (ram s h 1)"
      "\<And>p. p < 4 \<Longrightarrow> ram t3 (?R p) = ram s (?R p)"
    and c3: "\<And>p j f. p < 4 \<Longrightarrow> j < unat (ram s h 0) \<Longrightarrow> ram t3 (?F p j) f =
          (if p = GPIO_C \<and> j = 5 \<and> f = GPIO_IN then GPIO_ON else ram t2 (?F p j) f)"
    by (auto simp: GPIO_C_def GPIO_IN_def)
  have mw: "main_writes s h = Some t3" using w1 w2 w3 by (simp add: main_writes_def)
  have cells: "ram t3 (?F p j) f =
          (if (p, j, f) \<in> {(GPIO_A, 0, GPIO_OUT), (GPIO_B, 2, GPIO_ALT), (GPIO_C, 5, GPIO_IN)}
           then GPIO_ON else ram s (?F p j) f)" if "p < 4" "j < unat (ram s h 0)" for p j f
    using c1[OF that, of f] c2[OF that, of f] c3[OF that, of f] by auto
  show ?thesis using mw l3 s3 cells by blast
qed

section \<open>The rollback of \<^verbatim>\<open>PINS_createInstance\<close> when fresh memory reads zero\<close>

lemma partial_matrixD:
  assumes "partial_matrix s h" "ram s h 1 \<noteq> NULL"
  shows "live s NULL = None" "h \<noteq> NULL" "live s h = Some 2" "live s (ram s h 1) = Some 4"
    "shape_psep h (ram s h 1) (ram s (ram s h 1)) (\<lambda>p. ram s (ram s (ram s h 1) p)) (unat (ram s h 0))"
    "rows_phold s (ram s h 1) (ram s (ram s h 1)) (\<lambda>p. ram s (ram s (ram s h 1) p)) (unat (ram s h 0)) 0"
  using assms unfolding partial_matrix_def by simp_all

lemma rows_pholdD:
  assumes "rows_phold s P R F N 0" "p < 4" "R p \<noteq> NULL"
  shows "live s (R p) = Some N"
    and "\<And>j. j < N \<Longrightarrow> F p j \<noteq> NULL \<Longrightarrow> live s (F p j) \<noteq> None"
proof -
  have x: "ram s P p = R p \<and>
        (R p \<noteq> NULL \<longrightarrow> live s (R p) = Some N \<and>
           (\<forall>j<N. ram s (R p) j = F p j \<and> (F p j \<noteq> NULL \<longrightarrow> live s (F p j) \<noteq> None)))"
    using assms(1,2) unfolding rows_phold_def by simp
  then show "live s (R p) = Some N" using assms(3) by simp
  show "live s (F p j) \<noteq> None" if "j < N" "F p j \<noteq> NULL" for j
    using x assms(3) that by simp
qed

lemma add_cell:
  assumes pm: "partial_matrix s h" and Pnz: "ram s h 1 \<noteq> NULL"
    and ix: "pin < 4" "func < unat (ram s h 0)"
    and r: "ram s (ram s h 1) pin = r" "r \<noteq> NULL" "ram s r func = NULL"
    and a: "a \<noteq> NULL" "live s a = None"
    and s2: "live s2 = (live s)(a \<mapsto> k)" "ram s2 = (ram s)(r := (ram s r)(func := a))"
  shows "partial_matrix s2 h" "pblocks s2 h = insert a (pblocks s h)"
    "ram s2 h = ram s h" "ram s2 (ram s h 1) = ram s (ram s h 1)"
proof -
  let ?P = "ram s h 1"
  let ?N = "unat (ram s h 0)"
  let ?R = "ram s ?P"
  let ?F = "\<lambda>p j. ram s (?R p) j"
  let ?F2 = "\<lambda>p j. ram s2 (?R p) j"
  note d = partial_matrixD[OF pm Pnz]
  note sd = shape_psepD[OF d(5)]
  note rw = rows_pholdD[OF d(6)]
  have rpin: "?R pin = r" by (rule r(1))
  have rhP: "r \<noteq> h" "r \<noteq> ?P" using sd(4)[OF ix(1)] r(1,2) by simp_all
  have ahP: "a \<noteq> h" "a \<noteq> ?P" using a(2) d(3,4) by auto
  have aR: "?R p \<noteq> a" if "p < 4" for p
  proof (cases "?R p = NULL")
    case True then show ?thesis using a(1) by simp
  next
    case False then show ?thesis using rw(1)[OF that False] a(2) by auto
  qed
  have aF: "?F p j \<noteq> a" if "p < 4" "?R p \<noteq> NULL" "j < ?N" for p j
  proof (cases "?F p j = NULL")
    case True then show ?thesis using a(1) by simp
  next
    case False then show ?thesis using rw(2)[OF that(1,2,3) False] a(2) by auto
  qed
  have e1: "ram s2 h = ram s h" using s2(2) rhP by simp
  have e2: "ram s2 ?P = ram s ?P" using s2(2) rhP by simp
  show "ram s2 h = ram s h" by (rule e1)
  show "ram s2 ?P = ram s ?P" by (rule e2)
  have Rr: "?R p = r \<longleftrightarrow> p = pin" if "p < 4" for p
  proof
    assume e: "?R p = r"
    show "p = pin"
    proof (rule ccontr)
      assume "p \<noteq> pin"
      from sd(5)[OF ix(1) _ that this] r(1,2) e show False by simp
    qed
  qed (use r(1) in simp)
  have e3: "?F2 p j = (if p = pin \<and> j = func then a else ?F p j)" if "p < 4" for p j
    using s2(2) Rr[OF that] rpin by auto
  have pin0: "?F pin func = NULL" using r(1,3) by simp
  have hd2: "ram s2 h 0 = ram s h 0" "ram s2 h 1 = ?P" using e1 by simp_all
  have l2: "live s2 NULL = None" "live s2 h = Some 2" "live s2 ?P = Some 4"
    using s2(1) a(1) ahP d(1,3,4) by simp_all
  have psep: "shape_psep h ?P ?R ?F2 ?N"
    unfolding shape_psep_def
  proof (intro conjI allI impI)
    show "h \<noteq> NULL" "?P \<noteq> NULL" "h \<noteq> ?P" using sd(1,2,3) by simp_all
  next
    fix p :: nat assume p: "p < 4" and nz: "?R p \<noteq> NULL"
    show "?R p \<noteq> h" "?R p \<noteq> ?P" using sd(4)[OF p nz] by simp_all
    show "?R p' \<noteq> ?R p" if "p' < 4" "p' \<noteq> p" for p' using sd(5)[OF p nz that] .
    fix j :: nat assume j: "j < ?N" and fz: "?F2 p j \<noteq> NULL"
    show "?F2 p j \<noteq> h" "?F2 p j \<noteq> ?P"
      using e3[OF p, of j] ahP sd(6)[OF p nz j] fz by (auto split: if_splits)
    show "?R p' \<noteq> ?F2 p j" if p': "p' < 4" for p'
    proof (cases "p = pin \<and> j = func")
      case True then show ?thesis using e3[OF p, of j] aR[OF p'] by simp
    next
      case False
      then have "?F2 p j = ?F p j" using e3[OF p, of j] by auto
      then show ?thesis using sd(7)[OF p nz j _ p'] fz by simp
    qed
    show "?F2 p' j' \<noteq> ?F2 p j"
      if p': "p' < 4" and j': "j' < ?N" and c: "?R p' \<noteq> NULL \<and> (p' \<noteq> p \<or> j' \<noteq> j)" for p' j'
    proof (cases "p = pin \<and> j = func")
      case True
      then have "?F2 p j = a" using e3[OF p, of j] by auto
      moreover have "?F2 p' j' = ?F p' j'" using e3[OF p', of j'] c True by auto
      ultimately show ?thesis using aF[OF p' _ j'] c by simp
    next
      case False
      then have f: "?F2 p j = ?F p j" using e3[OF p, of j] by auto
      show ?thesis
      proof (cases "p' = pin \<and> j' = func")
        case True
        then have "?F2 p' j' = a" using e3[OF p', of j'] by auto
        then show ?thesis using f aF[OF p nz j] by simp
      next
        case False
        then have "?F2 p' j' = ?F p' j'" using e3[OF p', of j'] by auto
        then show ?thesis using f sd(8)[OF p nz j _ p' j'] fz c by simp
      qed
    qed
  qed
  have phold: "rows_phold s2 ?P ?R ?F2 ?N 0"
    unfolding rows_phold_def
  proof (intro conjI allI impI)
    fix p :: nat assume p: "p < 4"
    show "ram s2 ?P p = ?R p" using e2 by simp
    assume nz: "?R p \<noteq> NULL"
    show "live s2 (?R p) = Some ?N" using s2(1) rw(1)[OF p nz] aR[OF p] by simp
    fix j :: nat assume j: "j < ?N"
    show "ram s2 (?R p) j = ?F2 p j" by simp
    assume fz: "?F2 p j \<noteq> NULL"
    show "live s2 (?F2 p j) \<noteq> None"
    proof (cases "p = pin \<and> j = func")
      case True then show ?thesis using e3[OF p, of j] s2(1) by simp
    next
      case False
      then have f: "?F2 p j = ?F p j" using e3[OF p, of j] by auto
      then show ?thesis using rw(2)[OF p nz j] fz s2(1) by auto
    qed
  qed
  show "partial_matrix s2 h"
    unfolding partial_matrix_def hd2 e2 using l2 sd(1) psep phold by simp
  show "pblocks s2 h = insert a (pblocks s h)"
  proof (rule set_eqI)
    fix x
    have cells: "(\<exists>j<?N. x = ?F2 p j) \<longleftrightarrow> (p = pin \<and> x = a) \<or> (\<exists>j<?N. x = ?F p j)"
      if p: "p < 4" and xz: "x \<noteq> NULL" for p
    proof
      assume "\<exists>j<?N. x = ?F2 p j"
      then obtain j where j: "j < ?N" "x = ?F2 p j" by blast
      then show "(p = pin \<and> x = a) \<or> (\<exists>j<?N. x = ?F p j)"
        using e3[OF p, of j] by (cases "p = pin \<and> j = func") auto
    next
      assume "(p = pin \<and> x = a) \<or> (\<exists>j<?N. x = ?F p j)"
      then show "\<exists>j<?N. x = ?F2 p j"
      proof
        assume "p = pin \<and> x = a"
        then have "x = ?F2 p func" using e3[OF p, of func] by auto
        then show ?thesis using ix(2) by blast
      next
        assume "\<exists>j<?N. x = ?F p j"
        then obtain j where j: "j < ?N" "x = ?F p j" by blast
        then have "\<not> (p = pin \<and> j = func)" using pin0 xz by auto
        then have "x = ?F2 p j" using e3[OF p, of j] j(2) by auto
        then show ?thesis using j(1) by blast
      qed
    qed
    have m2: "x \<in> pblocks s2 h \<longleftrightarrow>
        x = h \<or> (x \<noteq> NULL \<and> (x = ?P \<or> (\<exists>p<4. ?R p \<noteq> NULL \<and> (x = ?R p \<or> (\<exists>j<?N. x = ?F2 p j)))))"
      unfolding pblocks_def hd2 e2 using Pnz by auto
    have m1: "x \<in> pblocks s h \<longleftrightarrow>
        x = h \<or> (x \<noteq> NULL \<and> (x = ?P \<or> (\<exists>p<4. ?R p \<noteq> NULL \<and> (x = ?R p \<or> (\<exists>j<?N. x = ?F p j)))))"
      unfolding pblocks_def using Pnz by auto
    show "x \<in> pblocks s2 h \<longleftrightarrow> x \<in> insert a (pblocks s h)"
    proof (cases "x = NULL")
      case True
      have "x \<notin> pblocks s2 h \<and> x \<notin> pblocks s h" using m1 m2 True sd(1) by simp
      then show ?thesis using True a(1) by auto
    next
      case False
      have "(\<exists>p<4. ?R p \<noteq> NULL \<and> (x = ?R p \<or> (\<exists>j<?N. x = ?F2 p j))) \<longleftrightarrow>
          x = a \<or> (\<exists>p<4. ?R p \<noteq> NULL \<and> (x = ?R p \<or> (\<exists>j<?N. x = ?F p j)))"
        (is "?L \<longleftrightarrow> ?Rt")
      proof
        assume ?L
        then obtain p where p: "p < 4" "?R p \<noteq> NULL" "x = ?R p \<or> (\<exists>j<?N. x = ?F2 p j)" by blast
        then have "x = ?R p \<or> (p = pin \<and> x = a) \<or> (\<exists>j<?N. x = ?F p j)"
          using cells[OF p(1) False] by blast
        then show ?Rt using p(1,2) by blast
      next
        assume ?Rt
        then show ?L
        proof
          assume "x = a"
          then have "\<exists>j<?N. x = ?F2 pin j" using cells[OF ix(1) False] by blast
          then show ?L using ix(1) r(1,2) by blast
        next
          assume "\<exists>p<4. ?R p \<noteq> NULL \<and> (x = ?R p \<or> (\<exists>j<?N. x = ?F p j))"
          then obtain p where p: "p < 4" "?R p \<noteq> NULL" "x = ?R p \<or> (\<exists>j<?N. x = ?F p j)" by blast
          then have "x = ?R p \<or> (\<exists>j<?N. x = ?F2 p j)" using cells[OF p(1) False] by blast
          then show ?L using p(1,2) by blast
        qed
      qed
      then show ?thesis unfolding insert_iff m1 m2 using False ahP by blast
    qed
  qed
qed

lemma add_row:
  assumes pm: "partial_matrix s h" and Pnz: "ram s h 1 \<noteq> NULL"
    and ix: "pin < 4" and slot: "ram s (ram s h 1) pin = NULL"
    and a: "a \<noteq> NULL" "live s a = None" "\<forall>i. ram s a i = NULL"
    and s2: "live s2 = (live s)(a \<mapsto> unat (ram s h 0))"
      "ram s2 = (ram s)(ram s h 1 := (ram s (ram s h 1))(pin := a))"
  shows "partial_matrix s2 h" "pblocks s2 h = insert a (pblocks s h)"
    "ram s2 h = ram s h" "\<forall>j. ram s2 a j = NULL"
proof -
  let ?P = "ram s h 1"
  let ?N = "unat (ram s h 0)"
  let ?R = "ram s ?P"
  let ?F = "\<lambda>p j. ram s (?R p) j"
  let ?R2 = "ram s2 ?P"
  let ?F2 = "\<lambda>p j. ram s2 (?R2 p) j"
  note d = partial_matrixD[OF pm Pnz]
  note sd = shape_psepD[OF d(5)]
  note rw = rows_pholdD[OF d(6)]
  have ahP: "a \<noteq> h" "a \<noteq> ?P" using a(2) d(3,4) by auto
  have aR: "?R p \<noteq> a" if "p < 4" for p
  proof (cases "?R p = NULL")
    case True then show ?thesis using a(1) by simp
  next
    case False then show ?thesis using rw(1)[OF that False] a(2) by auto
  qed
  have aF: "?F p j \<noteq> a" if "p < 4" "?R p \<noteq> NULL" "j < ?N" for p j
  proof (cases "?F p j = NULL")
    case True then show ?thesis using a(1) by simp
  next
    case False then show ?thesis using rw(2)[OF that(1,2,3) False] a(2) by auto
  qed
  have e1: "ram s2 h = ram s h" using s2(2) sd(3) by simp
  show "ram s2 h = ram s h" by (rule e1)
  have ea: "ram s2 a = ram s a" using s2(2) ahP by simp
  show "\<forall>j. ram s2 a j = NULL" using ea a(3) by simp
  have r2: "?R2 p = (if p = pin then a else ?R p)" for p using s2(2) by simp
  have RP: "?R p \<noteq> ?P" if "p < 4" for p
  proof (cases "?R p = NULL")
    case True then show ?thesis using Pnz by simp
  next
    case False then show ?thesis using sd(4)[OF that False] by simp
  qed
  have f2: "?F2 p j = (if p = pin then NULL else ?F p j)" if "p < 4" for p j
  proof (cases "p = pin")
    case True then show ?thesis using r2[of p] ea a(3) by simp
  next
    case False
    then have "?R2 p = ?R p" using r2[of p] by simp
    then show ?thesis using s2(2) RP[OF that] False by simp
  qed
  have hd2: "ram s2 h 0 = ram s h 0" "ram s2 h 1 = ?P" using e1 by simp_all
  have l2: "live s2 NULL = None" "live s2 h = Some 2" "live s2 ?P = Some 4"
    using s2(1) a(1) ahP d(1,3,4) by simp_all
  have psep: "shape_psep h ?P ?R2 ?F2 ?N"
    unfolding shape_psep_def
  proof (intro conjI allI impI)
    show "h \<noteq> NULL" "?P \<noteq> NULL" "h \<noteq> ?P" using sd(1,2,3) by simp_all
  next
    fix p :: nat assume p: "p < 4" and nz: "?R2 p \<noteq> NULL"
    have old: "?R p \<noteq> NULL" if "p \<noteq> pin" using nz r2[of p] that by simp
    show "?R2 p \<noteq> h" "?R2 p \<noteq> ?P"
      using r2[of p] ahP sd(4)[OF p] nz by (auto split: if_splits)
    show "?R2 p' \<noteq> ?R2 p" if p': "p' < 4" "p' \<noteq> p" for p'
    proof (cases "p = pin")
      case True then show ?thesis using r2[of p] r2[of p'] p' aR[OF p'(1)] by simp
    next
      case False
      show ?thesis
      proof (cases "p' = pin")
        case True then show ?thesis using r2[of p] r2[of p'] False aR[OF p] by auto
      next
        case pf: False
        then show ?thesis using r2[of p] r2[of p'] False sd(5)[OF p old[OF False] p'] by simp
      qed
    qed
    fix j :: nat assume j: "j < ?N" and fz: "?F2 p j \<noteq> NULL"
    have pp: "p \<noteq> pin" using fz f2[OF p, of j] by auto
    have f: "?F2 p j = ?F p j" using f2[OF p, of j] pp by simp
    have fz': "?F p j \<noteq> NULL" using fz f by simp
    show "?F2 p j \<noteq> h" "?F2 p j \<noteq> ?P" using f sd(6)[OF p old[OF pp] j fz'] by simp_all
    show "?R2 p' \<noteq> ?F2 p j" if p': "p' < 4" for p'
    proof (cases "p' = pin")
      case True then show ?thesis using r2[of p'] f aF[OF p old[OF pp] j] by auto
    next
      case False then show ?thesis using r2[of p'] f sd(7)[OF p old[OF pp] j fz' p'] by simp
    qed
    show "?F2 p' j' \<noteq> ?F2 p j"
      if p': "p' < 4" and j': "j' < ?N" and c: "?R2 p' \<noteq> NULL \<and> (p' \<noteq> p \<or> j' \<noteq> j)" for p' j'
    proof (cases "p' = pin")
      case True then show ?thesis using f2[OF p', of j'] fz by simp
    next
      case False
      then have "?F2 p' j' = ?F p' j'" "?R p' \<noteq> NULL" using f2[OF p', of j'] r2[of p'] c by simp_all
      then show ?thesis using f sd(8)[OF p old[OF pp] j fz' p' j'] c by simp
    qed
  qed
  have phold: "rows_phold s2 ?P ?R2 ?F2 ?N 0"
    unfolding rows_phold_def
  proof (intro conjI allI impI)
    fix p :: nat assume p: "p < 4"
    show "ram s2 ?P p = ?R2 p" by simp
    assume nz: "?R2 p \<noteq> NULL"
    show "live s2 (?R2 p) = Some ?N"
    proof (cases "p = pin")
      case True then show ?thesis using r2[of p] s2(1) by simp
    next
      case False
      then have "?R2 p = ?R p" "?R p \<noteq> NULL" using r2[of p] nz by simp_all
      then show ?thesis using s2(1) rw(1)[OF p] aR[OF p] by simp
    qed
    fix j :: nat assume j: "j < ?N"
    show "ram s2 (?R2 p) j = ?F2 p j" by simp
    assume fz: "?F2 p j \<noteq> NULL"
    have pp: "p \<noteq> pin" using fz f2[OF p, of j] by auto
    have f: "?F2 p j = ?F p j" "?R p \<noteq> NULL" using f2[OF p, of j] pp r2[of p] nz by simp_all
    show "live s2 (?F2 p j) \<noteq> None"
      using f rw(2)[OF p f(2) j] fz aF[OF p f(2) j] s2(1) by auto
  qed
  show "partial_matrix s2 h"
    unfolding partial_matrix_def hd2 using l2 sd(1) psep phold by simp
  show "pblocks s2 h = insert a (pblocks s h)"
  proof (rule set_eqI)
    fix x
    have m2: "x \<in> pblocks s2 h \<longleftrightarrow>
        x = h \<or> (x \<noteq> NULL \<and> (x = ?P \<or> (\<exists>p<4. ?R2 p \<noteq> NULL \<and> (x = ?R2 p \<or> (\<exists>j<?N. x = ?F2 p j)))))"
      unfolding pblocks_def hd2 using Pnz by auto
    have m1: "x \<in> pblocks s h \<longleftrightarrow>
        x = h \<or> (x \<noteq> NULL \<and> (x = ?P \<or> (\<exists>p<4. ?R p \<noteq> NULL \<and> (x = ?R p \<or> (\<exists>j<?N. x = ?F p j)))))"
      unfolding pblocks_def using Pnz by auto
    show "x \<in> pblocks s2 h \<longleftrightarrow> x \<in> insert a (pblocks s h)"
    proof (cases "x = NULL")
      case True
      have "x \<notin> pblocks s2 h \<and> x \<notin> pblocks s h" using m1 m2 True sd(1) by simp
      then show ?thesis using True a(1) by auto
    next
      case False
      have "(\<exists>p<4. ?R2 p \<noteq> NULL \<and> (x = ?R2 p \<or> (\<exists>j<?N. x = ?F2 p j))) \<longleftrightarrow>
          x = a \<or> (\<exists>p<4. ?R p \<noteq> NULL \<and> (x = ?R p \<or> (\<exists>j<?N. x = ?F p j)))"
        (is "?L \<longleftrightarrow> ?Rt")
      proof
        assume ?L
        then obtain p where p: "p < 4" "?R2 p \<noteq> NULL" "x = ?R2 p \<or> (\<exists>j<?N. x = ?F2 p j)" by blast
        show ?Rt
        proof (cases "p = pin")
          case True
          then have "x = a" using p(3) r2[of p] f2[OF p(1)] False by auto
          then show ?thesis by simp
        next
          case pf: False
          then have "?R2 p = ?R p" "\<And>j. ?F2 p j = ?F p j" using r2[of p] f2[OF p(1)] by simp_all
          then have "?R p \<noteq> NULL \<and> (x = ?R p \<or> (\<exists>j<?N. x = ?F p j))" using p(2,3) by simp
          then show ?thesis using p(1) by blast
        qed
      next
        assume ?Rt
        then show ?L
        proof
          assume "x = a"
          then have "?R2 pin \<noteq> NULL \<and> x = ?R2 pin" using r2[of pin] a(1) by simp
          then show ?L using ix by blast
        next
          assume "\<exists>p<4. ?R p \<noteq> NULL \<and> (x = ?R p \<or> (\<exists>j<?N. x = ?F p j))"
          then obtain p where p: "p < 4" "?R p \<noteq> NULL" "x = ?R p \<or> (\<exists>j<?N. x = ?F p j)" by blast
          then have "p \<noteq> pin" using slot by auto
          then have "?R2 p = ?R p" "\<And>j. ?F2 p j = ?F p j" using r2[of p] f2[OF p(1)] by simp_all
          then have "?R2 p \<noteq> NULL \<and> (x = ?R2 p \<or> (\<exists>j<?N. x = ?F2 p j))" using p(2,3) by simp
          then show ?L using p(1) by blast
        qed
      qed
      then show ?thesis unfolding insert_iff m1 m2 using False ahP by blast
    qed
  qed
qed

lemma rb_inv_cong:
  assumes "live s2 = live s" "ram s2 = ram s" "brk s2 = brk s"
  shows "rb_inv s2 L0 h = rb_inv s L0 h"
  unfolding rb_inv_def heap_ok_def zeroed_def partial_matrix_def rows_phold_def pblocks_def
  by (simp only: assms)

lemma rb_inv_rollback:
  assumes "rb_inv s L0 h"
  shows "\<exists>s'. PINS_destroyInstance s h = Some (SUCCESS, s') \<and> live s' = L0"
proof -
  have pm: "partial_matrix s h" and l: "\<And>a. (if a \<in> pblocks s h then None else live s a) = L0 a"
    using assms unfolding rb_inv_def by simp_all
  from destroy_partial_ok[OF pm] obtain s' where d: "PINS_destroyInstance s h = Some (SUCCESS, s')"
    and lv: "live s' = (\<lambda>a. if a \<in> pblocks s h then None else live s a)" by blast
  have "live s' = L0" unfolding lv using l by (rule ext)
  with d show ?thesis by blast
qed

lemma malloc_refused:
  assumes "\<not> (\<exists>pl. plan s = True # pl \<and> brk s \<noteq> NULL)"
  shows "\<exists>s1. malloc s b = (NULL, s1) \<and> live s1 = live s \<and> ram s1 = ram s \<and> brk s1 = brk s"
  using assms by (auto simp: malloc_def split: list.splits)

lemma rb_inv_rowD:
  assumes inv: "rb_inv s L0 h" and ix: "pin < 4" and nz: "ram s (ram s h 1) pin \<noteq> NULL"
  shows "live s h = Some 2" "live s (ram s h 1) = Some 4" "h \<noteq> ram s h 1"
    "live s (ram s (ram s h 1) pin) = Some (unat (ram s h 0))"
    "ram s (ram s h 1) pin \<noteq> h" "ram s (ram s h 1) pin \<noteq> ram s h 1"
proof -
  have pm: "partial_matrix s h" and Pnz: "ram s h 1 \<noteq> NULL" using inv unfolding rb_inv_def by simp_all
  note d = partial_matrixD[OF pm Pnz]
  note sd = shape_psepD[OF d(5)]
  show "live s h = Some 2" "live s (ram s h 1) = Some 4" "h \<noteq> ram s h 1" using d sd(3) by simp_all
  show "live s (ram s (ram s h 1) pin) = Some (unat (ram s h 0))"
    by (rule rows_pholdD(1)[OF d(6) ix nz])
  show "ram s (ram s h 1) pin \<noteq> h" "ram s (ram s h 1) pin \<noteq> ram s h 1"
    using sd(4)[OF ix nz] by simp_all
qed

lemma rb_inv_add_cell:
  assumes inv: "rb_inv s L0 h" and ix: "pin < 4" "func < unat (ram s h 0)"
    and r: "ram s (ram s h 1) pin = r" "r \<noteq> NULL" "ram s r func = NULL"
    and b: "brk s \<noteq> NULL"
  shows "rb_inv (s\<lparr>live := (live s)(brk s \<mapsto> k), brk := brk s + 1, plan := pl,
                   ram := (ram s)(r := (ram s r)(func := brk s))\<rparr>) L0 h"
proof -
  let ?a = "brk s"
  let ?s2 = "s\<lparr>live := (live s)(?a \<mapsto> k), brk := ?a + 1, plan := pl,
                   ram := (ram s)(r := (ram s r)(func := ?a))\<rparr>"
  have ok: "heap_ok s" and z: "zeroed s" and Pnz: "ram s h 1 \<noteq> NULL" and pm: "partial_matrix s h"
    and l: "\<And>a. (if a \<in> pblocks s h then None else live s a) = L0 a"
    using inv unfolding rb_inv_def by simp_all
  have fresh: "live s ?a = None" by (rule heap_ok_fresh[OF ok b])
  have rl: "live s r = Some (unat (ram s h 0))" using rb_inv_rowD(4)[OF inv ix(1)] r(1,2) by simp
  note ac = add_cell[OF pm Pnz ix r b fresh, of ?s2 k]
  have pm2: "partial_matrix ?s2 h" by (rule ac(1)) simp_all
  have pb2: "pblocks ?s2 h = insert ?a (pblocks s h)" by (rule ac(2)) simp_all
  have e1: "ram ?s2 h = ram s h" by (rule ac(3)) simp_all
  have ok2: "heap_ok ?s2" using heap_ok_grant[OF ok b, where k=k and pl=pl] by simp
  have z2: "zeroed ?s2"
    unfolding zeroed_def
  proof (intro allI impI)
    fix a i assume "live ?s2 a = None"
    then have n: "a \<noteq> ?a" "live s a = None" by (auto split: if_splits)
    then have "a \<noteq> r" using rl by auto
    then show "ram ?s2 a i = NULL" using z n(2) unfolding zeroed_def by simp
  qed
  have l2: "(if a \<in> pblocks ?s2 h then None else live ?s2 a) = L0 a" for a
  proof (cases "a = ?a")
    case True
    then show ?thesis using l[of a] fresh unfolding pb2 by (auto split: if_splits)
  next
    case False
    then show ?thesis using l[of a] unfolding pb2 by (auto split: if_splits)
  qed
  show ?thesis unfolding rb_inv_def using ok2 z2 pm2 l2 e1 Pnz by simp
qed

lemma create_funcs_refused:
  assumes m: "malloc s (of_nat MAX_FUNC * 4) = (NULL, s1)" "live s1 = live s" "ram s1 = ram s"
    and pre: "live s h = Some 2" "ram s h 1 = P" "live s P = Some 4" "pin < 4"
      "ram s P pin = r" "live s r = Some m" "h \<noteq> P" "r \<noteq> h" "r \<noteq> P"
      "func < unat (ram s h 0)" "func < m"
  shows "create_funcs s h pin func =
     PINS_destroyInstance (s1\<lparr>ram := (ram s1)(r := (ram s1 r)(func := NULL))\<rparr>) h
       \<bind> (\<lambda>(ret, s3). Some (NULL, s3))"
  using pre m(2,3)
  by (subst create_funcs.simps)
     (simp add: m(1) num_of_pins_def pins_port_pin_def pins_port_def pins_def load_live store_live)

lemma create_funcs_zeroed:
  assumes "rb_inv s L0 h" "ram s h 1 = P" "pin < 4" "ram s P pin = r" "r \<noteq> NULL"
    "\<forall>j. func \<le> j \<and> j < unat (ram s h 0) \<longrightarrow> ram s r j = NULL"
  shows "\<exists>pm s'. create_funcs s h pin func = Some (pm, s') \<and>
     (pm = NULL \<and> live s' = L0 \<or>
      pm = h \<and> rb_inv s' L0 h \<and> ram s' h = ram s h \<and> ram s' P = ram s P)"
  using assms
proof (induction "unat (ram s h 0) - func" arbitrary: s func)
  case 0
  have "live s h = Some 2" using rb_inv_rowD(1)[OF 0(2)] 0 by simp
  moreover have "\<not> func < unat (ram s h 0)" using 0(1) by simp
  ultimately have "create_funcs s h pin func = Some (h, s)" by (rule create_funcs_exit)
  with 0 show ?case by simp
next
  case (Suc k)
  let ?N = "unat (ram s h 0)"
  have lt: "func < ?N" using Suc.hyps(2) by simp
  have nz: "ram s (ram s h 1) pin \<noteq> NULL" using Suc.prems by simp
  note rd = rb_inv_rowD[OF Suc.prems(1,3) nz]
  have lv: "live s h = Some 2" "live s P = Some 4" "h \<noteq> P" "live s r = Some ?N" "r \<noteq> h" "r \<noteq> P"
    using rd Suc.prems(2,4) by simp_all
  have slot: "ram s r func = NULL" using Suc.prems(6) lt by simp
  show ?case
  proof (cases "\<exists>pl. plan s = True # pl \<and> brk s \<noteq> NULL")
    case False
    from malloc_refused[OF False, of "of_nat MAX_FUNC * 4"]
    obtain s1 where m: "malloc s (of_nat MAX_FUNC * 4) = (NULL, s1)" "live s1 = live s"
      "ram s1 = ram s" "brk s1 = brk s" by blast
    let ?s2 = "s1\<lparr>ram := (ram s1)(r := (ram s1 r)(func := NULL))\<rparr>"
    have unf: "create_funcs s h pin func =
       PINS_destroyInstance ?s2 h \<bind> (\<lambda>(ret, s3). Some (NULL, s3))"
      by (rule create_funcs_refused[OF m(1,2,3) lv(1) Suc.prems(2) lv(2) Suc.prems(3,4) lv(4,3,5,6) lt lt])
    have same: "ram ?s2 = ram s" using m(3) slot by (auto simp: fun_eq_iff)
    have "rb_inv ?s2 L0 h"
      using rb_inv_cong[of ?s2 s L0 h] same m(2,4) Suc.prems(1) by simp
    from rb_inv_rollback[OF this] obtain s3 where "PINS_destroyInstance ?s2 h = Some (SUCCESS, s3)"
      "live s3 = L0" by blast
    then show ?thesis using unf by simp
  next
    case True
    then obtain pl where pl: "plan s = True # pl" and b: "brk s \<noteq> NULL" by blast
    have ok: "heap_ok s" using Suc.prems(1) unfolding rb_inv_def by simp
    have fresh: "live s (brk s) = None" by (rule heap_ok_fresh[OF ok b])
    let ?s2 = "s\<lparr>live := (live s)(brk s \<mapsto> 3), brk := brk s + 1, plan := pl,
                     ram := (ram s)(r := (ram s r)(func := brk s))\<rparr>"
    have step: "create_funcs s h pin func = create_funcs ?s2 h pin (func + 1)"
      by (rule create_funcs_grant[OF lv(1) Suc.prems(2) lv(2) Suc.prems(3,4) lv(4,3,5,6) lt lt b pl fresh])
    have r1: "ram s (ram s h 1) pin = r" using Suc.prems(2,4) by simp
    have inv2: "rb_inv ?s2 L0 h"
      by (rule rb_inv_add_cell[OF Suc.prems(1,3) lt r1 Suc.prems(5) slot b])
    have e: "ram ?s2 h = ram s h" "ram ?s2 P = ram s P" using lv(5,6) by simp_all
    have "\<exists>pm s'. create_funcs ?s2 h pin (func + 1) = Some (pm, s') \<and>
       (pm = NULL \<and> live s' = L0 \<or>
        pm = h \<and> rb_inv s' L0 h \<and> ram s' h = ram ?s2 h \<and> ram s' P = ram ?s2 P)"
    proof (rule Suc.hyps(1)[OF _ inv2])
      show "k = unat (ram ?s2 h 0) - (func + 1)" using Suc.hyps(2) e(1) by simp
      show "ram ?s2 h 1 = P" using e(1) Suc.prems(2) by simp
      show "ram ?s2 P pin = r" using e(2) Suc.prems(4) by simp
      show "\<forall>j. func + 1 \<le> j \<and> j < unat (ram ?s2 h 0) \<longrightarrow> ram ?s2 r j = NULL"
        using Suc.prems(6) e(1) by auto
    qed (use Suc.prems in simp_all)
    then show ?thesis using step e by auto
  qed
qed

lemma rb_inv_hdrD:
  assumes inv: "rb_inv s L0 h"
  shows "live s h = Some 2" "live s (ram s h 1) = Some 4" "h \<noteq> ram s h 1" "h \<noteq> NULL"
proof -
  have pm: "partial_matrix s h" and Pnz: "ram s h 1 \<noteq> NULL" using inv unfolding rb_inv_def by simp_all
  note d = partial_matrixD[OF pm Pnz]
  note sd = shape_psepD[OF d(5)]
  show "live s h = Some 2" "live s (ram s h 1) = Some 4" "h \<noteq> ram s h 1" "h \<noteq> NULL"
    using d sd(3) by simp_all
qed

lemma rb_inv_add_row:
  assumes inv: "rb_inv s L0 h" and ix: "pin < 4"
    and slot: "ram s (ram s h 1) pin = NULL"
    and b: "brk s \<noteq> NULL"
  shows "rb_inv (s\<lparr>live := (live s)(brk s \<mapsto> unat (ram s h 0)), brk := brk s + 1, plan := pl,
                   ram := (ram s)(ram s h 1 := (ram s (ram s h 1))(pin := brk s))\<rparr>) L0 h"
    "\<forall>j. ram (s\<lparr>live := (live s)(brk s \<mapsto> unat (ram s h 0)), brk := brk s + 1, plan := pl,
                  ram := (ram s)(ram s h 1 := (ram s (ram s h 1))(pin := brk s))\<rparr>) (brk s) j = NULL"
proof -
  let ?a = "brk s"
  let ?s2 = "s\<lparr>live := (live s)(?a \<mapsto> unat (ram s h 0)), brk := ?a + 1, plan := pl,
                   ram := (ram s)(ram s h 1 := (ram s (ram s h 1))(pin := ?a))\<rparr>"
  have ok: "heap_ok s" and z: "zeroed s" and Pnz: "ram s h 1 \<noteq> NULL" and pm: "partial_matrix s h"
    and l: "\<And>a. (if a \<in> pblocks s h then None else live s a) = L0 a"
    using inv unfolding rb_inv_def by simp_all
  have fresh: "live s ?a = None" by (rule heap_ok_fresh[OF ok b])
  have za: "\<forall>i. ram s ?a i = NULL" using z fresh unfolding zeroed_def by simp
  have Pl: "live s (ram s h 1) = Some 4" by (rule rb_inv_hdrD(2)[OF inv])
  note ar = add_row[OF pm Pnz ix slot b fresh za, of ?s2]
  have pm2: "partial_matrix ?s2 h" by (rule ar(1)) simp_all
  have pb2: "pblocks ?s2 h = insert ?a (pblocks s h)" by (rule ar(2)) simp_all
  have e1: "ram ?s2 h = ram s h" by (rule ar(3)) simp_all
  show "\<forall>j. ram ?s2 ?a j = NULL" by (rule ar(4)) simp_all
  have ok2: "heap_ok ?s2" using heap_ok_grant[OF ok b, where k="unat (ram s h 0)" and pl=pl] by simp
  have z2: "zeroed ?s2"
    unfolding zeroed_def
  proof (intro allI impI)
    fix a i assume "live ?s2 a = None"
    then have n: "a \<noteq> ?a" "live s a = None" by (auto split: if_splits)
    then have "a \<noteq> ram s h 1" using Pl by auto
    then show "ram ?s2 a i = NULL" using z n(2) unfolding zeroed_def by simp
  qed
  have l2: "(if a \<in> pblocks ?s2 h then None else live ?s2 a) = L0 a" for a
  proof (cases "a = ?a")
    case True
    then show ?thesis using l[of a] fresh unfolding pb2 by (auto split: if_splits)
  next
    case False
    then show ?thesis using l[of a] unfolding pb2 by (auto split: if_splits)
  qed
  show "rb_inv ?s2 L0 h" unfolding rb_inv_def using ok2 z2 pm2 l2 e1 Pnz by simp
qed

lemma create_ports_refused:
  assumes m: "malloc s (ram s h 0 * 4) = (NULL, s1)" "live s1 = live s" "ram s1 = ram s"
    and pre: "live s h = Some 2" "ram s h 1 = P" "live s P = Some 4" "h \<noteq> P" "pin < 4"
  shows "create_ports s h pin =
     PINS_destroyInstance (s1\<lparr>ram := (ram s1)(P := (ram s1 P)(pin := NULL))\<rparr>) h
       \<bind> (\<lambda>(ret, s3). Some (NULL, s3))"
  using pre m(2,3)
  by (subst create_ports.simps)
     (simp add: m(1) num_of_pins_def pins_port_def pins_def load_live store_live MAX_PORTS_def)

lemma create_ports_zeroed:
  assumes "rb_inv s L0 h" "ram s h 1 = P" "unat (ram s h 0) < 2 ^ 30"
    "\<forall>p. pin \<le> p \<and> p < 4 \<longrightarrow> ram s P p = NULL"
  shows "\<exists>pm s'. create_ports s h pin = Some (pm, s') \<and> (pm = NULL \<longrightarrow> live s' = L0)"
  using assms
proof (induction "4 - pin" arbitrary: s pin)
  case 0
  then have "create_ports s h pin = Some (h, s)" by (simp add: create_ports_exit)
  moreover have "h \<noteq> NULL" by (rule rb_inv_hdrD(4)[OF 0(2)])
  ultimately show ?case by simp
next
  case (Suc k)
  have lt: "pin < 4" using Suc.hyps(2) by simp
  note hd = rb_inv_hdrD[OF Suc.prems(1)]
  have lv: "live s h = Some 2" "live s P = Some 4" "h \<noteq> P" "h \<noteq> NULL"
    using hd Suc.prems(2) by simp_all
  have slot: "ram s P pin = NULL" using Suc.prems(4) lt by simp
  show ?case
  proof (cases "\<exists>pl. plan s = True # pl \<and> brk s \<noteq> NULL")
    case False
    from malloc_refused[OF False, of "ram s h 0 * 4"]
    obtain s1 where m: "malloc s (ram s h 0 * 4) = (NULL, s1)" "live s1 = live s"
      "ram s1 = ram s" "brk s1 = brk s" by blast
    let ?s2 = "s1\<lparr>ram := (ram s1)(P := (ram s1 P)(pin := NULL))\<rparr>"
    have unf: "create_ports s h pin =
       PINS_destroyInstance ?s2 h \<bind> (\<lambda>(ret, s3). Some (NULL, s3))"
      by (rule create_ports_refused[OF m(1,2,3) lv(1) Suc.prems(2) lv(2,3) lt])
    have same: "ram ?s2 = ram s" using m(3) slot by (auto simp: fun_eq_iff)
    have "rb_inv ?s2 L0 h"
      using rb_inv_cong[of ?s2 s L0 h] same m(2,4) Suc.prems(1) by simp
    from rb_inv_rollback[OF this] obtain s3 where "PINS_destroyInstance ?s2 h = Some (SUCCESS, s3)"
      "live s3 = L0" by blast
    then show ?thesis using unf by simp
  next
    case True
    then obtain pl where pl: "plan s = True # pl" and b: "brk s \<noteq> NULL" by blast
    have ok: "heap_ok s" using Suc.prems(1) unfolding rb_inv_def by simp
    have fresh: "live s (brk s) = None" by (rule heap_ok_fresh[OF ok b])
    have rw: "unat (ram s h 0 * 4) div 4 = unat (ram s h 0)"
      by (rule row_words_exact[OF Suc.prems(3)])
    let ?s2 = "s\<lparr>live := (live s)(brk s \<mapsto> unat (ram s h 0)), brk := brk s + 1, plan := pl,
                     ram := (ram s)(P := (ram s P)(pin := brk s))\<rparr>"
    have step: "create_ports s h pin =
       create_funcs ?s2 h pin 0
         \<bind> (\<lambda>(pm, s3). if pm = NULL then Some (NULL, s3) else create_ports s3 h (pin + 1))"
      using create_ports_grant[OF lv(1) refl Suc.prems(2) lv(2,3) lt b pl fresh] unfolding rw .
    have slot1: "ram s (ram s h 1) pin = NULL" using slot Suc.prems(2) by simp
    have inv2: "rb_inv ?s2 L0 h" and z2: "\<forall>j. ram ?s2 (brk s) j = NULL"
      using rb_inv_add_row[OF Suc.prems(1) lt slot1 b, of pl] unfolding Suc.prems(2) by simp_all
    have e: "ram ?s2 h = ram s h" using lv(3) by simp
    have P2: "ram ?s2 h 1 = P" using e Suc.prems(2) by simp
    have r2: "ram ?s2 P pin = brk s" by simp
    have z2': "\<forall>j. 0 \<le> j \<and> j < unat (ram ?s2 h 0) \<longrightarrow> ram ?s2 (brk s) j = NULL"
      using z2 by blast
    from create_funcs_zeroed[OF inv2 P2 lt r2 b z2']
    obtain pm s3 where cf: "create_funcs ?s2 h pin 0 = Some (pm, s3)"
      and alt: "pm = NULL \<and> live s3 = L0 \<or>
                pm = h \<and> rb_inv s3 L0 h \<and> ram s3 h = ram ?s2 h \<and> ram s3 P = ram ?s2 P"
      by blast
    from alt show ?thesis
    proof
      assume "pm = NULL \<and> live s3 = L0"
      then show ?thesis using step cf by simp
    next
      assume a: "pm = h \<and> rb_inv s3 L0 h \<and> ram s3 h = ram ?s2 h \<and> ram s3 P = ram ?s2 P"
      then have inv3: "rb_inv s3 L0 h" and e3: "ram s3 h = ram s h" and p3: "ram s3 P = ram ?s2 P"
        and pmh: "pm = h" using e by simp_all
      have st: "create_ports s h pin = create_ports s3 h (pin + 1)"
        using step cf pmh lv(4) by simp
      have "\<exists>pm s'. create_ports s3 h (pin + 1) = Some (pm, s') \<and> (pm = NULL \<longrightarrow> live s' = L0)"
      proof (rule Suc.hyps(1)[OF _ inv3])
        show "k = 4 - (pin + 1)" using Suc.hyps(2) by simp
        show "ram s3 h 1 = P" using e3 Suc.prems(2) by simp
        show "unat (ram s3 h 0) < 2 ^ 30" using e3 Suc.prems(3) by simp
        show "\<forall>p. pin + 1 \<le> p \<and> p < 4 \<longrightarrow> ram s3 P p = NULL"
          unfolding p3 using Suc.prems(4) by simp
      qed
      then show ?thesis using st by simp
    qed
  qed
qed

lemma rb_inv_init:
  assumes ok: "heap_ok s" and z: "zeroed s" and b: "brk s \<noteq> NULL" "brk s + 1 \<noteq> NULL"
    and l4: "live s4 = (live s)(brk s \<mapsto> 2, brk s + 1 \<mapsto> 4)"
    and r4: "ram s4 = (ram s)(brk s := (ram s (brk s))(0 := n, 1 := brk s + 1))"
    and b4: "brk s4 = brk s + 1 + 1"
  shows "rb_inv s4 (live s) (brk s)" "\<forall>p. ram s4 (brk s + 1) p = NULL"
proof -
  let ?h = "brk s"
  let ?P = "brk s + 1"
  have hP: "?h \<noteq> ?P" by simp
  have fh: "live s ?h = None" by (rule heap_ok_fresh[OF ok b(1)])
  have "\<not> ?P < ?h" using word_lt_succ[OF b(2) order_refl] by simp
  then have fP: "live s ?P = None" using ok b(1) unfolding heap_ok_def by blast
  have l0: "live s NULL = None" using ok unfolding heap_ok_def by simp
  have zP: "ram s4 ?P p = NULL" for p using z fP hP unfolding zeroed_def r4 by simp
  then show "\<forall>p. ram s4 ?P p = NULL" ..
  have h1: "ram s4 ?h 1 = ?P" and h0: "ram s4 ?h 0 = n" unfolding r4 by simp_all
  let ?s1 = "s\<lparr>live := (live s)(?h \<mapsto> 2), brk := ?h + 1, plan := []\<rparr>"
  have ok1: "heap_ok ?s1" by (rule heap_ok_grant[OF ok b(1)])
  have ok2: "heap_ok (?s1\<lparr>live := (live ?s1)(brk ?s1 \<mapsto> 4), brk := brk ?s1 + 1, plan := []\<rparr>)"
    by (rule heap_ok_grant[OF ok1]) (use b(2) in simp)
  have ok4: "heap_ok s4"
    using ok2 unfolding heap_ok_def l4 b4 by simp
  have z4: "zeroed s4"
    unfolding zeroed_def
  proof (intro allI impI)
    fix a i assume "live s4 a = None"
    then have "a \<noteq> ?h" "live s a = None" unfolding l4 by (auto split: if_splits)
    then show "ram s4 a i = NULL" using z unfolding zeroed_def r4 by simp
  qed
  have sp: "shape_psep ?h ?P (ram s4 ?P) (\<lambda>p. ram s4 (ram s4 ?P p)) (unat (ram s4 ?h 0))"
    unfolding shape_psep_def using b hP zP by simp
  have rp: "rows_phold s4 ?P (ram s4 ?P) (\<lambda>p. ram s4 (ram s4 ?P p)) (unat (ram s4 ?h 0)) 0"
    unfolding rows_phold_def using zP by simp
  have pm: "partial_matrix s4 ?h"
    unfolding partial_matrix_def h1 using sp rp b l0 hP unfolding l4 by simp
  have pb: "pblocks s4 ?h = {?h, ?P}"
    unfolding pblocks_def h1 using zP b by auto
  have l: "(if a \<in> pblocks s4 ?h then None else live s4 a) = live s a" for a
    unfolding pb l4 using fh fP by auto
  show "rb_inv s4 (live s) ?h"
    unfolding rb_inv_def using ok4 z4 pm l h1 b(2) by simp
qed

lemma create_zeroed:
  assumes ok: "heap_ok s" and z: "zeroed s" and n: "unat n < 2 ^ 30"
  shows "\<exists>pm s'. PINS_createInstance s n = Some (pm, s') \<and> (pm = NULL \<longrightarrow> live s' = live s)"
proof (cases "\<exists>pl. plan s = True # pl \<and> brk s \<noteq> NULL")
  case False
  from malloc_refused[OF False, of 8]
  obtain s1 where m: "malloc s 8 = (NULL, s1)" "live s1 = live s" by blast
  then show ?thesis by (simp add: PINS_createInstance_def)
next
  case True
  then obtain pl where pl: "plan s = True # pl" and b: "brk s \<noteq> NULL" by blast
  let ?h = "brk s"
  define s1 where "s1 = s\<lparr>live := (live s)(?h \<mapsto> 2), brk := ?h + 1, plan := pl\<rparr>"
  define s2 where "s2 = s1\<lparr>ram := (ram s1)(?h := (ram s1 ?h)(0 := n))\<rparr>"
  have fh: "live s ?h = None" by (rule heap_ok_fresh[OF ok b])
  have m1: "malloc s 8 = (?h, s1)" using pl b by (simp add: malloc_def s1_def)
  have st1: "store s1 ?h 0 n = Some s2" by (simp add: store_def s1_def s2_def)
  have unf1: "PINS_createInstance s n =
    (case malloc s2 (of_nat MAX_PORTS * 4) of (p, s3) \<Rightarrow> do {
       s4 \<leftarrow> store s3 ?h 1 p;
       ps \<leftarrow> pins s4 ?h;
       if ps = NULL then do { s5 \<leftarrow> free s4 ?h; Some (NULL, s5) }
       else create_ports s4 ?h 0 })"
    using b by (simp add: PINS_createInstance_def m1 st1)
  show ?thesis
  proof (cases "\<exists>pl2. plan s2 = True # pl2 \<and> brk s2 \<noteq> NULL")
    case False
    from malloc_refused[OF False, of "of_nat MAX_PORTS * 4"]
    obtain s3 where m3: "malloc s2 (of_nat MAX_PORTS * 4) = (NULL, s3)" "live s3 = live s2"
      "ram s3 = ram s2" by blast
    have l3: "live s3 = (live s)(?h \<mapsto> 2)" using m3(2) by (simp add: s2_def s1_def)
    define s4 where "s4 = s3\<lparr>ram := (ram s3)(?h := (ram s3 ?h)(1 := NULL))\<rparr>"
    have st4: "store s3 ?h 1 NULL = Some s4" by (simp add: store_def l3 s4_def)
    have ld: "pins s4 ?h = Some NULL" by (simp add: pins_def load_def s4_def l3)
    have fr: "free s4 ?h = Some (s4\<lparr>live := (live s4)(?h := None)\<rparr>)"
      using b by (simp add: free_def s4_def l3)
    have "live (s4\<lparr>live := (live s4)(?h := None)\<rparr>) = live s"
      using fh by (auto simp: s4_def l3 fun_eq_iff)
    then show ?thesis unfolding unf1 using st4 ld fr by (simp add: m3(1))
  next
    case True
    then obtain pl2 where pl2: "plan s2 = True # pl2" and b2: "brk s2 \<noteq> NULL" by blast
    have b2': "?h + 1 \<noteq> NULL" using b2 by (simp add: s2_def s1_def)
    let ?P = "?h + 1"
    define s3 where "s3 = s2\<lparr>live := (live s2)(?P \<mapsto> 4), brk := ?P + 1, plan := pl2\<rparr>"
    define s4 where "s4 = s3\<lparr>ram := (ram s3)(?h := (ram s3 ?h)(1 := ?P))\<rparr>"
    have m3: "malloc s2 (of_nat MAX_PORTS * 4) = (?P, s3)"
      using pl2 b2' by (simp add: malloc_def s3_def s2_def s1_def MAX_PORTS_def)
    have l3: "live s3 ?h = Some 2" using b2' by (simp add: s3_def s2_def s1_def)
    have st4: "store s3 ?h 1 ?P = Some s4" by (simp add: store_def l3 s4_def)
    have l4: "live s4 = (live s)(?h \<mapsto> 2, ?P \<mapsto> 4)" by (simp add: s4_def s3_def s2_def s1_def)
    have r4: "ram s4 = (ram s)(?h := (ram s ?h)(0 := n, 1 := ?P))"
      by (simp add: s4_def s3_def s2_def s1_def)
    have b4: "brk s4 = ?h + 1 + 1" by (simp add: s4_def s3_def s2_def s1_def)
    have ld: "pins s4 ?h = Some ?P" using b2' by (simp add: pins_def load_def l4 r4)
    have unf2: "PINS_createInstance s n = create_ports s4 ?h 0"
      unfolding unf1 using b2' st4 ld by (simp add: m3)
    note iv = rb_inv_init[OF ok z b b2' l4 r4 b4]
    have h1: "ram s4 ?h 1 = ?P" and h0: "unat (ram s4 ?h 0) < 2 ^ 30" using n by (simp_all add: r4)
    have zP: "\<forall>p. 0 \<le> p \<and> p < 4 \<longrightarrow> ram s4 ?P p = NULL" using iv(2) by blast
    from create_ports_zeroed[OF iv(1) h1 h0 zP] show ?thesis unfolding unf2 .
  qed
qed

section \<open>Destroying a live matrix\<close>

lemma destroy_ok:
  assumes lm: "live_matrix s h"
  shows "\<exists>s'. PINS_destroyInstance s h = Some (SUCCESS, s') \<and>
     live s' = (\<lambda>a. if a \<in> blocks s h then None else live s a) \<and>
     brk s' = brk s \<and> plan s' = plan s"
  using destroy_partial_ok[OF live_matrix_partial(1)[OF lm]] live_matrix_partial(2)[OF lm]
  by simp

lemma live_matrix_fully_allocated:
  assumes "live_matrix s h"
  shows "fully_allocated s h (ram s h 0)"
proof -
  note d = live_matrixD[OF assms]
  have "h \<noteq> NULL" "ram s h 1 \<noteq> NULL"
    and "\<And>p. p < 4 \<Longrightarrow> ram s (ram s h 1) p \<noteq> NULL"
    and "\<And>p j. p < 4 \<Longrightarrow> j < unat (ram s h 0) \<Longrightarrow> ram s (ram s (ram s h 1) p) j \<noteq> NULL"
    using d(6) unfolding shape_sep_def by blast+
  then show ?thesis
    unfolding fully_allocated_def MAX_PORTS_def MAX_FUNC_def using d(2,3,4,5) by simp
qed

subsection \<open>Concrete runs\<close>

lemma boot_ok: "heap_ok (boot junk pl)"
  by (simp add: heap_ok_def boot_def)

lemma create_boot_1:
  "map_option fst (PINS_createInstance (boot 7 (replicate 10 True)) 1) = Some 1"
  by code_simp

lemma read_boot_1: "create_then_read (boot 7 (replicate 10 True)) 1 GPIO_A 0 GPIO_OUT = Some 7"
  by code_simp


lemma create_boot_6:
  "map_option fst (PINS_createInstance (boot 7 (replicate 30 True)) 6) = Some 1"
  by code_simp

lemma partial_boot_1:
  "partial_matrix (the (before_rollback (boot 0 [True, True, False]) 1)) 1"
  by (simp add: partial_matrix_def shape_psep_def rows_phold_def before_rollback_def boot_def
        malloc_def store_def MAX_PORTS_def)

subsection \<open>After the first destroy\<close>

lemma second_destroy_undefined:
  assumes "live_matrix s h" "PINS_destroyInstance s h = Some (r, s')"
  shows "PINS_destroyInstance s' h = None"
proof -
  from destroy_ok[OF assms(1)] assms(2)
  have lv: "live s' = (\<lambda>a. if a \<in> blocks s h then None else live s a)" by auto
  have "h \<in> blocks s h" by (simp add: blocks_def)
  then have "live s' h = None" unfolding lv by simp
  moreover have "h \<noteq> NULL" using live_matrixD(6)[OF assms(1)] unfolding shape_sep_def by blast
  ultimately show ?thesis
    by (simp add: PINS_destroyInstance_def destroy_body_def pins_def load_def)
qed

subsection \<open>The rollback after a refused first pin level\<close>

lemma create_rollback_first_row:
  assumes "plan s = True # True # False # pl" "brk s \<noteq> NULL" "brk s + 1 \<noteq> NULL"
  shows "PINS_createInstance s n = do {
     s6 \<leftarrow> before_rollback s n;
     (ret, s7) \<leftarrow> PINS_destroyInstance s6 (brk s);
     Some (NULL, s7) }"
proof -
  have ne: "brk s + 1 \<noteq> brk s" by simp
  show ?thesis
    using assms ne
    by (simp add: PINS_createInstance_def before_rollback_def malloc_def store_def load_def
          pins_def pins_port_def num_of_pins_def create_ports.simps[of _ _ 0] MAX_PORTS_def)
qed

section \<open>The claims\<close>

text \<open>
  C1.  The claim: whichever single allocation is refused, \<^verbatim>\<open>PINS_createInstance\<close> frees
  what it had allocated and returns \<open>NULL\<close>.  The rollback is the call of
  \<^verbatim>\<open>PINS_destroyInstance\<close>, which tells a built level from an unbuilt one by a test for
  \<open>NULL\<close>; but the levels come from \<^verbatim>\<open>malloc\<close> and their unbuilt slots hold whatever was in
  memory.  With one pin per port, the header and the port level granted and the first pin
  level refused, a RAM that reads 7 everywhere makes the rollback follow the word 7 found
  in slot 1 of the port level: undefined behaviour, nothing is returned.  On a RAM that
  reads 0 the same run returns \<open>NULL\<close>; lemma \<open>create_zeroed\<close> shows that this is the only
  defect of the rollback: when memory outside the allocated blocks reads zero, the call
  returns for every pin count below \<open>2 ^ 30\<close> and every behaviour of the allocator, and
  when it returns \<open>NULL\<close> the allocated blocks are those before the call.
\<close>

theorem rollback_reads_uninitialised_slots:
  "PINS_createInstance (boot 7 [True, True, False]) 1 = None \<and>
   map_option fst (PINS_createInstance (boot 0 [True, True, False]) 1) = Some NULL"
  by code_simp

text \<open>
  C2.  The claim: for a \<open>NULL\<close> instance, destroy returns the InvalidArgument status,
  distinct from Success, and never Success.  The code does not: on \<open>NULL\<close> the local
  \<^verbatim>\<open>ret\<close> is set to \<^verbatim>\<open>-EINVAL\<close>, which differs from \<^verbatim>\<open>SUCCESS\<close>, but the value returned at
  \<^verbatim>\<open>function_output\<close> is the constant \<^verbatim>\<open>SUCCESS\<close>; the heap is left as it was and nothing
  faults.
\<close>

theorem destroy_null_returns_success:
  "destroy_body s NULL = Some (- EINVAL, s) \<and> - EINVAL \<noteq> SUCCESS
   \<and> PINS_destroyInstance s NULL = Some (SUCCESS, s)"
  by (simp add: destroy_body_def PINS_destroyInstance_def EINVAL_def SUCCESS_def)

text \<open>
  C3.  The claim: after a successful create every cell holds \<^verbatim>\<open>GPIO_OFF\<close>.  The code
  writes no cell: the function levels come from \<^verbatim>\<open>malloc\<close> and are left as they are.  On a
  RAM that reads 7 everywhere the cell \<open>(A, 0, OUT)\<close> of a fresh matrix reads 7.
\<close>

theorem create_cells_not_off:
  "create_then_read (boot 7 (replicate 10 True)) 1 GPIO_A 0 GPIO_OUT = Some 7 \<and> GPIO_OFF \<noteq> 7"
  by code_simp

text \<open>
  C3, as amended.  After a successful create every cell \<open>(port, pin, func)\<close> with
  \<open>pin < n\<close> exists, in a block \<open>c\<close> that was not allocated before the call, and reads
  as the word that memory held at that place before the call (\<open>ram s c func\<close>, with \<open>s\<close>
  the heap before the call).  With more than five pins, so for \<open>n = 6\<close>, the three
  assignments of \<^verbatim>\<open>main\<close> are defined; afterwards the three cells read \<^verbatim>\<open>GPIO_ON\<close> and
  every other cell still reads as that word.
\<close>

theorem create_leaves_cells_unwritten:
  assumes "heap_ok s" "PINS_createInstance s n = Some (h, s')" "h \<noteq> NULL"
  shows "(\<forall>port<MAX_PORTS. \<forall>pin<unat n. \<exists>c.
            pins_port_pin s' h port pin = Some c \<and> live s c = None \<and>
            (\<forall>func<MAX_FUNC. read_cell s' h port pin func = Some (ram s c func))) \<and>
         (5 < unat n \<longrightarrow>
            (\<exists>t. main_writes s' h = Some t \<and>
               (\<forall>port<MAX_PORTS. \<forall>pin<unat n. \<exists>c.
                  pins_port_pin t h port pin = Some c \<and>
                  (\<forall>func<MAX_FUNC. read_cell t h port pin func =
                     Some (if (port, pin, func) \<in>
                              {(GPIO_A, 0, GPIO_OUT), (GPIO_B, 2, GPIO_ALT), (GPIO_C, 5, GPIO_IN)}
                           then GPIO_ON else ram s c func)))))"
proof (intro conjI impI)
  note k = create_ok[OF assms(2,3,1)]
  let ?F = "\<lambda>p j. ram s' (ram s' (ram s' h 1) p) j"
  have inb: "?F p j \<in> blocks s' h" if "p < 4" "j < unat n" for p j
    using that k(2) unfolding blocks_def by auto
  show "\<forall>port<MAX_PORTS. \<forall>pin<unat n. \<exists>c.
            pins_port_pin s' h port pin = Some c \<and> live s c = None \<and>
            (\<forall>func<MAX_FUNC. read_cell s' h port pin func = Some (ram s c func))"
  proof (intro allI impI)
    fix port pin assume ix: "port < MAX_PORTS" "pin < unat n"
    then have ix': "port < 4" "pin < unat (ram s' h 0)" using k(2) by (simp_all add: MAX_PORTS_def)
    have a: "pins_port_pin s' h port pin = Some (?F port pin)" by (rule pins_port_pin_ok[OF k(1) ix'])
    have b: "live s (?F port pin) = None" using k(5)[OF inb] ix' ix(2) by simp
    have c: "read_cell s' h port pin func = Some (ram s (?F port pin) func)" if "func < MAX_FUNC" for func
      using read_cell_ok[OF k(1) ix', of func] that k(7)[OF ix'(1) ix(2)] by (simp add: MAX_FUNC_def)
    show "\<exists>c. pins_port_pin s' h port pin = Some c \<and> live s c = None \<and>
            (\<forall>func<MAX_FUNC. read_cell s' h port pin func = Some (ram s c func))"
      using a b c by blast
  qed
  assume n5: "5 < unat n"
  then have "5 < unat (ram s' h 0)" using k(2) by simp
  from main_writes_ok[OF k(1) this]
  obtain t where mw: "main_writes s' h = Some t" and lt: "live_matrix t h"
    and st: "ram t h = ram s' h" "ram t (ram s' h 1) = ram s' (ram s' h 1)"
      "\<And>p. p < 4 \<Longrightarrow> ram t (ram s' (ram s' h 1) p) = ram s' (ram s' (ram s' h 1) p)"
    and ct: "\<And>p j f. p < 4 \<Longrightarrow> j < unat (ram s' h 0) \<Longrightarrow> ram t (?F p j) f =
          (if (p, j, f) \<in> {(GPIO_A, 0, GPIO_OUT), (GPIO_B, 2, GPIO_ALT), (GPIO_C, 5, GPIO_IN)}
           then GPIO_ON else ram s' (?F p j) f)"
    by blast
  have "\<forall>port<MAX_PORTS. \<forall>pin<unat n. \<exists>c.
                  pins_port_pin t h port pin = Some c \<and>
                  (\<forall>func<MAX_FUNC. read_cell t h port pin func =
                     Some (if (port, pin, func) \<in>
                              {(GPIO_A, 0, GPIO_OUT), (GPIO_B, 2, GPIO_ALT), (GPIO_C, 5, GPIO_IN)}
                           then GPIO_ON else ram s c func))"
  proof (intro allI impI)
    fix port pin assume ix: "port < MAX_PORTS" "pin < unat n"
    then have ix': "port < 4" "pin < unat (ram s' h 0)" using k(2) by (simp_all add: MAX_PORTS_def)
    have ixt: "port < 4" "pin < unat (ram t h 0)" using ix' st(1) by simp_all
    have Ft: "ram t (ram t (ram t h 1) port) pin = ?F port pin"
      using st(1,2) st(3)[OF ix'(1)] by simp
    have a: "pins_port_pin t h port pin = Some (?F port pin)"
      using pins_port_pin_ok[OF lt ixt] Ft by simp
    have c: "read_cell t h port pin func =
        Some (if (port, pin, func) \<in> {(GPIO_A, 0, GPIO_OUT), (GPIO_B, 2, GPIO_ALT), (GPIO_C, 5, GPIO_IN)}
              then GPIO_ON else ram s (?F port pin) func)" if "func < MAX_FUNC" for func
      using read_cell_ok[OF lt ixt, of func] that Ft ct[OF ix', of func] k(7)[OF ix'(1) ix(2)]
      by (simp add: MAX_FUNC_def)
    show "\<exists>c. pins_port_pin t h port pin = Some c \<and>
                  (\<forall>func<MAX_FUNC. read_cell t h port pin func =
                     Some (if (port, pin, func) \<in>
                              {(GPIO_A, 0, GPIO_OUT), (GPIO_B, 2, GPIO_ALT), (GPIO_C, 5, GPIO_IN)}
                           then GPIO_ON else ram s c func))"
      using a c by blast
  qed
  with mw show "\<exists>t. main_writes s' h = Some t \<and>
               (\<forall>port<MAX_PORTS. \<forall>pin<unat n. \<exists>c.
                  pins_port_pin t h port pin = Some c \<and>
                  (\<forall>func<MAX_FUNC. read_cell t h port pin func =
                     Some (if (port, pin, func) \<in>
                              {(GPIO_A, 0, GPIO_OUT), (GPIO_B, 2, GPIO_ALT), (GPIO_C, 5, GPIO_IN)}
                           then GPIO_ON else ram s c func)))"
    by blast
qed

theorem create_leaves_cells_unwritten_witness:
  "heap_ok (boot 7 (replicate 30 True)) \<and>
   map_option fst (PINS_createInstance (boot 7 (replicate 30 True)) 6) = Some 1 \<and>
   (5::nat) < unat (6::word32) \<and>
   create_then_read (boot 7 (replicate 30 True)) 6 GPIO_D 5 GPIO_ALT = Some 7 \<and>
   main_then_read (boot 7 (replicate 30 True)) 6 GPIO_B 2 GPIO_ALT = Some GPIO_ON \<and>
   main_then_read (boot 7 (replicate 30 True)) 6 GPIO_B 2 GPIO_OUT = Some 7"
proof -
  let ?B = "boot 7 (replicate 30 True)"
  obtain s' where c: "PINS_createInstance ?B 6 = Some (1, s')"
    using create_boot_6 by (cases "PINS_createInstance ?B 6") auto
  have junk: "ram ?B a i = 7" for a i by (simp add: boot_def)
  have one: "(1::addr) \<noteq> NULL" by simp
  note t = create_leaves_cells_unwritten[OF boot_ok c one]
  have ix: "GPIO_D < MAX_PORTS" "GPIO_B < MAX_PORTS" "GPIO_ALT < MAX_FUNC" "GPIO_OUT < MAX_FUNC"
    "(5::nat) < unat (6::word32)" "(2::nat) < unat (6::word32)"
    by (simp_all add: GPIO_D_def GPIO_B_def GPIO_ALT_def GPIO_OUT_def MAX_PORTS_def MAX_FUNC_def)
  from t[THEN conjunct1, rule_format, OF ix(1) ix(5)]
  obtain c1 where c1: "pins_port_pin s' 1 GPIO_D 5 = Some c1 \<and> live ?B c1 = None \<and>
      (\<forall>func<MAX_FUNC. read_cell s' 1 GPIO_D 5 func = Some (ram ?B c1 func))" ..
  from c1[THEN conjunct2, THEN conjunct2, rule_format, OF ix(3)] have r1: "read_cell s' 1 GPIO_D 5 GPIO_ALT = Some 7"
    by (simp only: junk)
  from t[THEN conjunct2, rule_format, OF ix(5)]
  obtain t' where tt: "main_writes s' 1 = Some t' \<and>
               (\<forall>port<MAX_PORTS. \<forall>pin<unat (6::word32). \<exists>c.
                  pins_port_pin t' 1 port pin = Some c \<and>
                  (\<forall>func<MAX_FUNC. read_cell t' 1 port pin func =
                     Some (if (port, pin, func) \<in>
                              {(GPIO_A, 0, GPIO_OUT), (GPIO_B, 2, GPIO_ALT), (GPIO_C, 5, GPIO_IN)}
                           then GPIO_ON else ram ?B c func)))" ..
  note mw = tt[THEN conjunct1] and cells = tt[THEN conjunct2]
  from cells[rule_format, OF ix(2) ix(6)]
  obtain c2 where cc: "pins_port_pin t' 1 GPIO_B 2 = Some c2 \<and>
                  (\<forall>func<MAX_FUNC. read_cell t' 1 GPIO_B 2 func =
                     Some (if (GPIO_B, 2::nat, func) \<in>
                              {(GPIO_A, 0, GPIO_OUT), (GPIO_B, 2, GPIO_ALT), (GPIO_C, 5, GPIO_IN)}
                           then GPIO_ON else ram ?B c2 func))" ..
  note c2 = cc[THEN conjunct2]
  have r2: "read_cell t' 1 GPIO_B 2 GPIO_ALT =
       Some (if (GPIO_B, 2::nat, GPIO_ALT) \<in>
                              {(GPIO_A, 0, GPIO_OUT), (GPIO_B, 2, GPIO_ALT), (GPIO_C, 5, GPIO_IN)}
                           then GPIO_ON else 7)"
    using c2[rule_format, OF ix(3)] by (simp only: junk)
  have r3: "read_cell t' 1 GPIO_B 2 GPIO_OUT =
       Some (if (GPIO_B, 2::nat, GPIO_OUT) \<in>
                              {(GPIO_A, 0, GPIO_OUT), (GPIO_B, 2, GPIO_ALT), (GPIO_C, 5, GPIO_IN)}
                           then GPIO_ON else 7)"
    using c2[rule_format, OF ix(4)] by (simp only: junk)
  have r2': "read_cell t' 1 GPIO_B 2 GPIO_ALT = Some GPIO_ON" using r2 by simp
  have r3': "read_cell t' 1 GPIO_B 2 GPIO_OUT = Some 7"
    using r3 by (simp add: GPIO_A_def GPIO_B_def GPIO_C_def GPIO_OUT_def GPIO_ALT_def GPIO_IN_def)
  show ?thesis
    using c boot_ok r1 r2' r3' mw ix(5)
    by (simp add: create_then_read_def main_then_read_def)
qed

text \<open>
  C4.  The claim: a second destroy of the same handle is a safe no-op.  The code does
  not make it one: line 150 sets the parameter \<^verbatim>\<open>instance\<close> to \<open>NULL\<close>, which is the
  callee's copy, so the caller's handle still points at the freed header, and the second
  call reads \<^verbatim>\<open>instance->pins\<close> from it.  After \<^verbatim>\<open>create(1)\<close> with every allocation granted,
  the first destroy returns \<^verbatim>\<open>SUCCESS\<close> and the second is undefined behaviour.
\<close>

theorem second_destroy_reads_freed_header:
  "map_option (\<lambda>r. fst (snd r)) (create_destroy (boot 0 (replicate 10 True)) 1) = Some SUCCESS \<and>
   create_destroy_twice (boot 0 (replicate 10 True)) 1 = None"
  by code_simp

text \<open>
  C5.  Whatever the pin count, a handle that \<^verbatim>\<open>PINS_createInstance\<close> returns is the header
  of a fully allocated instance: the port level, the four pin levels of \<open>n\<close> pointers and
  the \<open>4 * n\<close> function levels of three cells all exist and are reached through non-null
  pointers.  A pin count whose row size \<open>n * 4\<close> wraps around never gets that far: the
  run writes outside the short row and is undefined, so no handle is returned.
\<close>

theorem create_returns_fully_allocated:
  assumes "heap_ok s" "PINS_createInstance s n = Some (h, s')" "h \<noteq> NULL"
  shows "fully_allocated s' h n"
  using live_matrix_fully_allocated[OF create_ok(1)[OF assms(2,3,1)]] create_ok(2)[OF assms(2,3,1)]
  by simp

theorem create_returns_fully_allocated_witness:
  "heap_ok (boot 7 (replicate 10 True)) \<and>
   map_option fst (PINS_createInstance (boot 7 (replicate 10 True)) 1) = Some 1 \<and>
   fully_allocated (snd (the (PINS_createInstance (boot 7 (replicate 10 True)) 1))) 1 1"
proof -
  let ?S = "boot 7 (replicate 10 True)"
  obtain s' where c: "PINS_createInstance ?S 1 = Some (1, s')"
    using create_boot_1 by (cases "PINS_createInstance ?S 1") auto
  have "fully_allocated s' 1 1"
    by (rule create_returns_fully_allocated[OF boot_ok c]) simp
  then show ?thesis using c boot_ok by simp
qed

text \<open>
  C6.  When \<^verbatim>\<open>PINS_createInstance\<close> has returned a handle, \<^verbatim>\<open>PINS_destroyInstance\<close> on that
  handle returns \<^verbatim>\<open>SUCCESS\<close> and leaves exactly the blocks allocated that were allocated
  before the instance was created: every block of the instance is freed, once, and no
  other block is.
\<close>

theorem create_destroy_no_leak:
  assumes "heap_ok s" "PINS_createInstance s n = Some (h, s')" "h \<noteq> NULL"
  shows "\<exists>s''. PINS_destroyInstance s' h = Some (SUCCESS, s'') \<and> live s'' = live s"
proof -
  note c = create_ok[OF assms(2,3,1)]
  from destroy_ok[OF c(1)] obtain s'' where d: "PINS_destroyInstance s' h = Some (SUCCESS, s'')"
    and lv: "live s'' = (\<lambda>a. if a \<in> blocks s' h then None else live s' a)" by blast
  have "live s'' a = live s a" for a
  proof (cases "a \<in> blocks s' h")
    case True
    then show ?thesis using c(5)[of a] lv by simp
  next
    case False
    show ?thesis
    proof (cases "live s a = None")
      case True
      then have "live s' a = None" using c(6)[of a] False by blast
      then show ?thesis using True False lv by simp
    next
      case False
      then show ?thesis using c(4)[of a] \<open>a \<notin> blocks s' h\<close> lv by simp
    qed
  qed
  then have "live s'' = live s" by (rule ext)
  with d show ?thesis by blast
qed

theorem create_destroy_no_leak_witness:
  "heap_ok (boot 7 (replicate 10 True)) \<and>
   map_option fst (PINS_createInstance (boot 7 (replicate 10 True)) 1) = Some 1 \<and>
   map_option (\<lambda>r. (fst (snd r), live (snd (snd r)))) (create_destroy (boot 7 (replicate 10 True)) 1)
     = Some (SUCCESS, live (boot 7 (replicate 10 True)))"
proof -
  let ?S = "boot 7 (replicate 10 True)"
  obtain s' where c: "PINS_createInstance ?S 1 = Some (1, s')"
    using create_boot_1 by (cases "PINS_createInstance ?S 1") auto
  have "\<exists>s''. PINS_destroyInstance s' 1 = Some (SUCCESS, s'') \<and> live s'' = live ?S"
    by (rule create_destroy_no_leak[OF boot_ok c]) simp
  then obtain s'' where "PINS_destroyInstance s' 1 = Some (SUCCESS, s'')" "live s'' = live ?S"
    by blast
  then show ?thesis using c boot_ok create_boot_1 by (simp add: create_destroy_def)
qed

text \<open>
  C7.  The claim: on every input, a live handle, a rolled-back partial instance or \<open>NULL\<close>,
  \<^verbatim>\<open>PINS_destroyInstance\<close> returns \<^verbatim>\<open>SUCCESS\<close>.  A rollback (lines 91 and 102) passes the
  instance as far as \<^verbatim>\<open>PINS_createInstance\<close> has built it, and the slots it has not
  written hold what memory held.  With one pin per port, the header and the port level
  granted and the first pin level refused, on a RAM that reads 7 everywhere, the
  instance passed at line 91 exists and has 7 in slot B of the port level; the routine
  takes it for a pin level and reads through it: undefined behaviour, and no value is
  returned.
\<close>

theorem destroy_partial_instance_undefined:
  "before_rollback (boot 7 [True, True, False]) 1 \<noteq> None \<and>
   PINS_destroyInstance (the (before_rollback (boot 7 [True, True, False]) 1)) 1 = None"
  by code_simp

text \<open>
  C7, amended.  \<^verbatim>\<open>PINS_destroyInstance\<close> has one return value.  Whenever it returns, on any
  heap and any pointer, the value is \<^verbatim>\<open>SUCCESS\<close>.  It does return on \<open>NULL\<close>, where the local
  \<^verbatim>\<open>ret\<close> holds \<^verbatim>\<open>-EINVAL\<close> at the label and the value returned is \<^verbatim>\<open>SUCCESS\<close> all the same; on
  a live handle; and on a partial instance, as a rollback passes it, whose unbuilt levels
  are null pointers.  Nothing is said of a partial instance with other values in its
  unbuilt slots.
\<close>

theorem destroy_always_reports_success:
  "(PINS_destroyInstance s p = Some (r, s') \<longrightarrow> r = SUCCESS) \<and>
   destroy_body s NULL = Some (- EINVAL, s) \<and>
   PINS_destroyInstance s NULL = Some (SUCCESS, s) \<and>
   (live_matrix s p \<longrightarrow> (\<exists>s''. PINS_destroyInstance s p = Some (SUCCESS, s''))) \<and>
   (partial_matrix s p \<longrightarrow> (\<exists>s''. PINS_destroyInstance s p = Some (SUCCESS, s'')))"
proof (intro conjI impI)
  assume "PINS_destroyInstance s p = Some (r, s')"
  then show "r = SUCCESS"
    by (auto simp: PINS_destroyInstance_def split: Option.bind_splits)
next
  show "destroy_body s NULL = Some (- EINVAL, s)" by (simp add: destroy_body_def)
  show "PINS_destroyInstance s NULL = Some (SUCCESS, s)"
    by (simp add: PINS_destroyInstance_def destroy_body_def)
next
  assume "live_matrix s p"
  from destroy_ok[OF this] show "\<exists>s''. PINS_destroyInstance s p = Some (SUCCESS, s'')" by blast
next
  assume "partial_matrix s p"
  from destroy_partial_ok[OF this]
  show "\<exists>s''. PINS_destroyInstance s p = Some (SUCCESS, s'')" by blast
qed

theorem destroy_always_reports_success_witness:
  "live_matrix (snd (the (PINS_createInstance (boot 7 (replicate 10 True)) 1))) 1 \<and>
   map_option fst (PINS_destroyInstance (snd (the (PINS_createInstance (boot 7 (replicate 10 True)) 1))) 1)
     = Some SUCCESS \<and>
   partial_matrix (the (before_rollback (boot 0 [True, True, False]) 1)) 1 \<and>
   map_option fst (PINS_destroyInstance (the (before_rollback (boot 0 [True, True, False]) 1)) 1)
     = Some SUCCESS \<and>
   map_option fst (PINS_destroyInstance (boot 7 []) NULL) = Some SUCCESS"
proof -
  let ?S = "boot 7 (replicate 10 True)"
  let ?Q = "the (before_rollback (boot 0 [True, True, False]) 1)"
  obtain s1 where c: "PINS_createInstance ?S 1 = Some (1, s1)"
    using create_boot_1 by (cases "PINS_createInstance ?S 1") auto
  have lm: "live_matrix s1 1" by (rule create_ok(1)[OF c _ boot_ok]) simp
  note t = destroy_always_reports_success[of s1 1]
  from t lm obtain s2 where d: "PINS_destroyInstance s1 1 = Some (SUCCESS, s2)" by blast
  from t[of SUCCESS s2] d have "SUCCESS = SUCCESS" by blast
  from destroy_always_reports_success[of ?Q 1] partial_boot_1
  obtain s3 where q: "PINS_destroyInstance ?Q 1 = Some (SUCCESS, s3)" by blast
  have n: "PINS_destroyInstance (boot 7 []) NULL = Some (SUCCESS, boot 7 [])"
    using destroy_always_reports_success[of "boot 7 []" NULL] by blast
  show ?thesis using c lm d n q partial_boot_1 by simp
qed

text \<open>
  C8.  The claim: create with a pin count of 0 fails with InvalidArgument and returns no
  handle.  The code has no test of the pin count and no such result: with its six
  requests granted (the four pin levels are requests for 0 bytes), the call returns the
  handle 1.
\<close>

theorem create_zero_returns_handle:
  "map_option fst (PINS_createInstance (boot 7 (replicate 6 True)) 0) = Some 1"
  by code_simp

text \<open>
  C8, as amended.  A pin count of 0 is not rejected.  When the allocator grants the six
  requests (header, port level, four pin levels of 0 bytes), create returns a handle to
  a fully allocated instance whose \<^verbatim>\<open>num_of_pins\<close> is 0, an instance without cells.
\<close>

theorem create_zero_pins:
  assumes "heap_ok s" "plan s = replicate 6 True @ pl" "brk s \<noteq> NULL" "unat (brk s) + 6 < 2 ^ 32"
  shows "\<exists>h s'. PINS_createInstance s 0 = Some (h, s') \<and> h \<noteq> NULL \<and>
     fully_allocated s' h 0 \<and> num_of_pins s' h = Some 0"
proof -
  have "\<exists>h s'. PINS_createInstance s 0 = Some (h, s') \<and> h \<noteq> NULL \<and> plan s' = pl"
    by (rule create_run[OF assms(1)]) (use assms in simp_all)
  then obtain h s' where c: "PINS_createInstance s 0 = Some (h, s')" "h \<noteq> NULL" by blast
  note k = create_ok[OF c assms(1)]
  have fa: "fully_allocated s' h 0" using live_matrix_fully_allocated[OF k(1)] k(2) by simp
  have "num_of_pins s' h = Some 0"
    using live_matrixD(2)[OF k(1)] k(2) by (simp add: num_of_pins_def load_live)
  with c fa show ?thesis by blast
qed

theorem create_zero_pins_witness:
  "heap_ok (boot 7 (replicate 6 True)) \<and> plan (boot 7 (replicate 6 True)) = replicate 6 True @ [] \<and>
   brk (boot 7 (replicate 6 True)) \<noteq> NULL \<and> unat (brk (boot 7 (replicate 6 True))) + 6 < 2 ^ 32 \<and>
   fst (the (PINS_createInstance (boot 7 (replicate 6 True)) 0)) \<noteq> NULL \<and>
   fully_allocated (snd (the (PINS_createInstance (boot 7 (replicate 6 True)) 0)))
     (fst (the (PINS_createInstance (boot 7 (replicate 6 True)) 0))) 0"
proof -
  let ?B = "boot 7 (replicate 6 True)"
  have h: "plan ?B = replicate 6 True @ []" "brk ?B \<noteq> NULL" "unat (brk ?B) + 6 < 2 ^ 32"
    by (simp_all add: boot_def)
  from create_zero_pins[OF boot_ok h] show ?thesis using h boot_ok by auto
qed

text \<open>
  C9.  In a live matrix, an assignment to the cell \<open>(port, pin, func)\<close> is defined, a read
  of any other in-range cell \<open>(port', pin', func')\<close> gives afterwards what it gave before,
  and a read of the cell itself gives the value written.
\<close>

theorem cell_writes_independent:
  assumes "live_matrix s h"
    and "port < MAX_PORTS" "pin < unat (ram s h 0)" "func < MAX_FUNC"
    and "port' < MAX_PORTS" "pin' < unat (ram s h 0)" "func' < MAX_FUNC"
    and "(port, pin, func) \<noteq> (port', pin', func')"
  shows "\<exists>s'. write_cell s h port pin func v = Some s' \<and>
     read_cell s' h port' pin' func' = read_cell s h port' pin' func' \<and>
     read_cell s' h port pin func = Some v"
proof -
  have ix: "port < 4" "pin < unat (ram s h 0)" "func < 3"
    and ix': "port' < 4" "pin' < unat (ram s h 0)" "func' < 3"
    using assms by (simp_all add: MAX_PORTS_def MAX_FUNC_def)
  obtain s' where w: "write_cell s h port pin func v = Some s'"
    using write_cell_ok[OF assms(1) ix] by blast
  note f = write_cell_frame[OF assms(1) ix w]
  have lm': "live_matrix s' h" by (rule write_cell_live_matrix[OF assms(1) ix w])
  have n': "ram s' h 0 = ram s h 0" using f(2) by simp
  have r1: "read_cell s' h port' pin' func' = Some (ram s (ram s (ram s (ram s h 1) port') pin') func')"
    using read_cell_ok[OF lm', of port' pin' func'] ix' n' f(2,3) f(4)[OF ix'(1)]
      f(5)[OF ix'(1,2), of func'] assms(8)
    by auto
  have r2: "read_cell s' h port pin func = Some v"
    using read_cell_ok[OF lm', of port pin func] ix n' f(2,3) f(4)[OF ix(1)]
      f(5)[OF ix(1,2), of func]
    by auto
  show ?thesis using w r1 r2 read_cell_ok[OF assms(1) ix'] by simp
qed

theorem cell_writes_independent_witness:
  "live_matrix (snd (the (PINS_createInstance (boot 7 (replicate 10 True)) 1))) 1 \<and>
   GPIO_B < MAX_PORTS \<and> GPIO_ALT < MAX_FUNC \<and> GPIO_A < MAX_PORTS \<and> GPIO_OUT < MAX_FUNC \<and>
   (write_cell (snd (the (PINS_createInstance (boot 7 (replicate 10 True)) 1))) 1 GPIO_B 0 GPIO_ALT GPIO_ON
      \<bind> (\<lambda>s'. read_cell s' 1 GPIO_A 0 GPIO_OUT)) = Some 7 \<and>
   (write_cell (snd (the (PINS_createInstance (boot 7 (replicate 10 True)) 1))) 1 GPIO_B 0 GPIO_ALT GPIO_ON
      \<bind> (\<lambda>s'. read_cell s' 1 GPIO_B 0 GPIO_ALT)) = Some GPIO_ON"
proof -
  let ?S = "boot 7 (replicate 10 True)"
  obtain s1 where c: "PINS_createInstance ?S 1 = Some (1, s1)"
    using create_boot_1 by (cases "PINS_createInstance ?S 1") auto
  have lm: "live_matrix s1 1" by (rule create_ok(1)[OF c _ boot_ok]) simp
  have n: "ram s1 1 0 = 1" by (rule create_ok(2)[OF c _ boot_ok]) simp
  have rd: "read_cell s1 1 GPIO_A 0 GPIO_OUT = Some 7"
    using c read_boot_1 by (simp add: create_then_read_def)
  have "\<exists>s'. write_cell s1 1 GPIO_B 0 GPIO_ALT GPIO_ON = Some s' \<and>
     read_cell s' 1 GPIO_A 0 GPIO_OUT = read_cell s1 1 GPIO_A 0 GPIO_OUT \<and>
     read_cell s' 1 GPIO_B 0 GPIO_ALT = Some GPIO_ON"
    by (rule cell_writes_independent[OF lm])
       (simp_all add: n GPIO_A_def GPIO_B_def GPIO_OUT_def GPIO_ALT_def MAX_PORTS_def MAX_FUNC_def)
  then show ?thesis using c lm rd
    by (auto simp: GPIO_A_def GPIO_B_def GPIO_OUT_def GPIO_ALT_def MAX_PORTS_def MAX_FUNC_def)
qed


end
